theory Spec2Isabelle
  imports Complex_Main
begin

section \<open>Python exceptions\<close>

text \<open>
  Every \<^verbatim>\<open>raise\<close> of the modelled code, and every exception that Python or numpy
  raises on the modelled paths, is a value of \<open>error\<close>; a fallible function returns
  \<open>error + 'a\<close> with \<open>Inl\<close> for the exception.
\<close>

datatype error =
  ValueError | IndexError | KeyError | ZeroDivisionError | TypeError | OverflowError

definition ebind :: "error + 'a \<Rightarrow> ('a \<Rightarrow> error + 'b) \<Rightarrow> error + 'b" where
  "ebind r f = (case r of Inl e \<Rightarrow> Inl e | Inr v \<Rightarrow> f v)"

section \<open>Array entries\<close>

text \<open>
  The entries of a numpy array are IEEE doubles. Rounding and the sign of zero are not
  modelled: a finite entry is a real number. The special values are modelled, because
  numpy does not raise on a division by zero: it stores \<open>nan\<close> or an infinity and the
  program goes on.
\<close>

datatype npfloat = Fin real | PInf | NInf | NaN

fun fadd :: "npfloat \<Rightarrow> npfloat \<Rightarrow> npfloat" where
  "fadd (Fin a) (Fin b) = Fin (a + b)"
| "fadd NaN _ = NaN"
| "fadd _ NaN = NaN"
| "fadd PInf NInf = NaN"
| "fadd NInf PInf = NaN"
| "fadd PInf _ = PInf"
| "fadd _ PInf = PInf"
| "fadd NInf _ = NInf"
| "fadd _ NInf = NInf"

fun fmul :: "npfloat \<Rightarrow> npfloat \<Rightarrow> npfloat" where
  "fmul (Fin a) (Fin b) = Fin (a * b)"
| "fmul NaN _ = NaN"
| "fmul _ NaN = NaN"
| "fmul (Fin a) PInf = (if a = 0 then NaN else if 0 < a then PInf else NInf)"
| "fmul (Fin a) NInf = (if a = 0 then NaN else if 0 < a then NInf else PInf)"
| "fmul PInf (Fin b) = (if b = 0 then NaN else if 0 < b then PInf else NInf)"
| "fmul NInf (Fin b) = (if b = 0 then NaN else if 0 < b then NInf else PInf)"
| "fmul PInf PInf = PInf"
| "fmul PInf NInf = NInf"
| "fmul NInf PInf = NInf"
| "fmul NInf NInf = PInf"

fun fdiv :: "npfloat \<Rightarrow> npfloat \<Rightarrow> npfloat" where
  "fdiv (Fin a) (Fin b) =
     (if b \<noteq> 0 then Fin (a / b)
      else if a = 0 then NaN else if 0 < a then PInf else NInf)"
| "fdiv NaN _ = NaN"
| "fdiv _ NaN = NaN"
| "fdiv (Fin a) PInf = Fin 0"
| "fdiv (Fin a) NInf = Fin 0"
| "fdiv PInf (Fin b) = (if 0 \<le> b then PInf else NInf)"
| "fdiv NInf (Fin b) = (if 0 \<le> b then NInf else PInf)"
| "fdiv PInf PInf = NaN"
| "fdiv PInf NInf = NaN"
| "fdiv NInf PInf = NaN"
| "fdiv NInf NInf = NaN"

text \<open>\<open>a < b\<close> on doubles: every comparison with \<open>nan\<close> is false.\<close>

fun fless :: "npfloat \<Rightarrow> npfloat \<Rightarrow> bool" where
  "fless (Fin a) (Fin b) = (a < b)"
| "fless NaN _ = False"
| "fless _ NaN = False"
| "fless NInf NInf = False"
| "fless NInf _ = True"
| "fless _ NInf = False"
| "fless PInf _ = False"
| "fless _ PInf = True"

definition fsum :: "npfloat list \<Rightarrow> npfloat" where
  "fsum xs = foldl fadd (Fin 0) xs"

section \<open>Matrix.py\<close>

text \<open>
  A \<open>Matrix\<close> object holds a two-dimensional numpy array \<open>data\<close> and the fields
  \<open>rows\<close> and \<open>cols\<close>, which its constructor reads off \<open>data.shape\<close>. The array is
  modelled as the list of its rows, and \<open>rows\<close> and \<open>cols\<close> as functions of it. An
  array with no row has no recorded column count; the only such array the engine makes
  is Viterbi's table for an empty reading string, which is only indexed.
\<close>

type_synonym matrix = "npfloat list list"

definition rows :: "matrix \<Rightarrow> nat" where
  "rows m = length m"

definition cols :: "matrix \<Rightarrow> nat" where
  "cols m = (case m of [] \<Rightarrow> 0 | r # _ \<Rightarrow> length r)"

definition np_zeros :: "nat \<Rightarrow> nat \<Rightarrow> matrix" where
  "np_zeros r c = replicate r (replicate c (Fin 0))"

text \<open>\<^verbatim>\<open>Matrix(rows, cols)\<close>: zeros, or \<open>ValueError\<close> when a dimension is 0.\<close>

definition Matrix :: "nat \<Rightarrow> nat \<Rightarrow> error + matrix" where
  "Matrix r c = (if r \<noteq> 0 \<and> c \<noteq> 0 then Inr (np_zeros r c) else Inl ValueError)"

text \<open>
  \<^verbatim>\<open>m[row, col]\<close> and \<^verbatim>\<open>m[row, col] = value\<close>. The indices of the modelled code come
  from \<^verbatim>\<open>range\<close> and from the grid's linear index, so they are naturals; numpy raises
  \<open>IndexError\<close> out of range.
\<close>

definition getitem :: "matrix \<Rightarrow> nat \<Rightarrow> nat \<Rightarrow> error + npfloat" where
  "getitem m r c =
     (if r < length m \<and> c < length (m ! r) then Inr (m ! r ! c) else Inl IndexError)"

definition setitem :: "matrix \<Rightarrow> nat \<Rightarrow> nat \<Rightarrow> npfloat \<Rightarrow> error + matrix" where
  "setitem m r c v =
     (if r < length m \<and> c < length (m ! r) then Inr (m[r := (m ! r)[c := v]])
      else Inl IndexError)"

text \<open>\<^verbatim>\<open>np.dot\<close> on two-dimensional arrays: \<open>ValueError\<close> when the shapes are not aligned.\<close>

definition np_dot :: "matrix \<Rightarrow> matrix \<Rightarrow> error + matrix" where
  "np_dot a b =
     (if cols a \<noteq> rows b then Inl ValueError
      else Inr (map (\<lambda>row. map (\<lambda>j. fsum (map (\<lambda>l. fmul (row ! l) (b ! l ! j)) [0..<length row]))
                               [0..<cols b]) a))"

text \<open>\<^verbatim>\<open>Matrix.__mul__\<close> with a \<open>Matrix\<close> operand.\<close>

definition mul :: "matrix \<Rightarrow> matrix \<Rightarrow> error + matrix" where
  "mul self other =
     (if cols other = rows other \<and> rows other = 1 then np_dot self other
      else if cols self \<noteq> rows other then Inl ValueError
      else np_dot self other)"

definition transpose_m :: "matrix \<Rightarrow> matrix" where
  "transpose_m m = map (\<lambda>j. map (\<lambda>row. row ! j) m) [0..<cols m]"

text \<open>
  \<^verbatim>\<open>Matrix.multiply\<close> on two matrices: \<^verbatim>\<open>np.multiply\<close>, the elementwise product with
  numpy's broadcasting (an axis of length 1 is stretched; other unequal lengths raise
  \<open>ValueError\<close>).
\<close>

definition broadcast_dim :: "nat \<Rightarrow> nat \<Rightarrow> error + nat" where
  "broadcast_dim a b =
     (if a = b then Inr a else if a = 1 then Inr b else if b = 1 then Inr a
      else Inl ValueError)"

definition multiply :: "matrix \<Rightarrow> matrix \<Rightarrow> error + matrix" where
  "multiply m1 m2 =
     ebind (broadcast_dim (rows m1) (rows m2)) (\<lambda>r.
     ebind (broadcast_dim (cols m1) (cols m2)) (\<lambda>c.
       Inr (map (\<lambda>i. map (\<lambda>j.
              fmul (m1 ! (if rows m1 = 1 then 0 else i) ! (if cols m1 = 1 then 0 else j))
                   (m2 ! (if rows m2 = 1 then 0 else i) ! (if cols m2 = 1 then 0 else j)))
              [0..<c]) [0..<r])))"

text \<open>
  \<^verbatim>\<open>Matrix.identity(*dims)\<close> hands the tuple \<open>dims\<close> itself to \<^verbatim>\<open>np.identity\<close>, whose
  argument is the integer \<open>n\<close>: \<^verbatim>\<open>np.identity(n)\<close> is \<^verbatim>\<open>eye(n)\<close>, which allocates
  \<^verbatim>\<open>zeros((n, n))\<close>, and a shape with a tuple as a component is a \<open>TypeError\<close>.
\<close>

datatype pyarg = PyInt nat | PyTuple "nat list"

definition np_identity :: "pyarg \<Rightarrow> error + matrix" where
  "np_identity n =
     (case n of
        PyInt k \<Rightarrow> Inr (map (\<lambda>i. map (\<lambda>j. if i = j then Fin 1 else Fin 0) [0..<k]) [0..<k])
      | PyTuple _ \<Rightarrow> Inl TypeError)"

definition identity :: "nat list \<Rightarrow> error + matrix" where
  "identity dims = np_identity (PyTuple dims)"

definition copy :: "matrix \<Rightarrow> matrix" where
  "copy m = m"

text \<open>\<^verbatim>\<open>Matrix.zeros(r, c)\<close> and \<^verbatim>\<open>Matrix.ones(r, c)\<close>.\<close>

definition zeros :: "nat \<Rightarrow> nat \<Rightarrow> matrix" where
  "zeros r c = np_zeros r c"

definition ones :: "nat \<Rightarrow> nat \<Rightarrow> matrix" where
  "ones r c = replicate r (replicate c (Fin 1))"

text \<open>
  \<^verbatim>\<open>Matrix.normalize(matrix)\<close> with the default \<open>axis=0\<close>:
  \<^verbatim>\<open>data / data.sum(axis=0, keepdims=True)\<close> divides every entry by the sum of its
  column. In the source it replaces \<open>matrix.data\<close> in place; here it returns the new array.
\<close>

definition col_sums :: "matrix \<Rightarrow> npfloat list" where
  "col_sums m = map (\<lambda>j. fsum (map (\<lambda>row. row ! j) m)) [0..<cols m]"

definition normalize_m :: "matrix \<Rightarrow> matrix" where
  "normalize_m m = map (\<lambda>row. map (\<lambda>j. fdiv (row ! j) (col_sums m ! j)) [0..<length row]) m"

section \<open>The grid\<close>

text \<open>
  Modelled from the spec: the class \<open>Maze\<close> (module \<open>Maze\<close>) is imported by \<open>HMM.py\<close>
  but is not among the sources. The engine uses its fields \<open>width\<close>, \<open>height\<close>,
  \<open>colors\<close> and \<open>color_count\<close> and its methods \<open>get_char\<close>, \<open>index\<close> and
  \<open>count_positions\<close>; they are the parameters of the model. \<open>get_char\<close> gives the
  character of a cell, \<^verbatim>\<open>'#'\<close> for a wall and \<open>None\<close> off the grid. The source calls
  \<open>index\<close> on every neighbour, also on walls and off the grid, and uses the result only
  for traversable cells.
\<close>

record maze =
  width :: nat
  height :: nat
  get_char :: "int \<Rightarrow> int \<Rightarrow> char option"
  index :: "int \<Rightarrow> int \<Rightarrow> nat"
  count_positions :: nat
  colors :: "char list"
  color_count :: nat

text \<open>The test \<^verbatim>\<open>c is not None and c != '#'\<close>.\<close>

definition is_floor :: "char option \<Rightarrow> bool" where
  "is_floor c = (c \<noteq> None \<and> c \<noteq> Some (CHR ''#''))"

text \<open>The cells in the order of the loops \<^verbatim>\<open>for x in range(width): for y in range(height)\<close>.\<close>

definition cells :: "maze \<Rightarrow> (int \<times> int) list" where
  "cells m = concat (map (\<lambda>x. map (\<lambda>y. (int x, int y)) [0..<height m]) [0..<width m])"

definition floor_at :: "maze \<Rightarrow> int \<times> int \<Rightarrow> bool" where
  "floor_at m p = is_floor (get_char m (fst p) (snd p))"

definition index_of :: "maze \<Rightarrow> int \<times> int \<Rightarrow> nat" where
  "index_of m p = index m (fst p) (snd p)"

definition floor_cells :: "maze \<Rightarrow> (int \<times> int) list" where
  "floor_cells m = filter (floor_at m) (cells m)"

text \<open>North, south, east and west of a cell, in the order the source looks at them.\<close>

definition neighbours :: "int \<times> int \<Rightarrow> (int \<times> int) list" where
  "neighbours p = [(fst p, snd p - 1), (fst p, snd p + 1), (fst p + 1, snd p), (fst p - 1, snd p)]"

text \<open>
  Modelled from the spec: what the spec's GridModel promises. The linear index is a
  bijection between the traversable cells and \<open>0..<count_positions\<close>, a cell off the grid
  is not traversable, and \<open>colors\<close> is the set of the \<open>color_count\<close> labels of the
  traversable cells.
\<close>

definition wf_maze :: "maze \<Rightarrow> bool" where
  "wf_maze m \<longleftrightarrow>
     distinct (map (index_of m) (floor_cells m)) \<and>
     (\<forall>p \<in> set (floor_cells m). index_of m p < count_positions m) \<and>
     count_positions m = length (floor_cells m) \<and>
     (\<forall>p \<in> set (cells m). \<forall>q \<in> set (neighbours p). floor_at m q \<longrightarrow> q \<in> set (cells m)) \<and>
     distinct (colors m) \<and> color_count m = length (colors m) \<and>
     (\<forall>p \<in> set (floor_cells m). \<exists>c \<in> set (colors m). get_char m (fst p) (snd p) = Some c)"

section \<open>HMM.py: building the model\<close>

definition CORRECT_COLOR :: real where
  "CORRECT_COLOR = 88 / 100"

definition WRONG_COLOR :: real where
  "WRONG_COLOR = 1 - CORRECT_COLOR"

definition MOVE_PROBABILITY :: real where
  "MOVE_PROBABILITY = 1 / 4"

definition NORTH_PROBABILITY :: real where
  "NORTH_PROBABILITY = MOVE_PROBABILITY"

definition SOUTH_PROBABILITY :: real where
  "SOUTH_PROBABILITY = MOVE_PROBABILITY"

definition EAST_PROBABILITY :: real where
  "EAST_PROBABILITY = MOVE_PROBABILITY"

definition WEST_PROBABILITY :: real where
  "WEST_PROBABILITY = MOVE_PROBABILITY"

text \<open>
  The engine's fields. \<open>sensor_probabilities\<close> is the dictionary from a color to its
  matrix; \<open>steps\<close> is the list of the matrices of the last run.
\<close>

record hmm =
  maze :: maze
  total_positions :: nat
  sensor_probabilities :: "char \<rightharpoonup> matrix"
  transitions :: matrix
  position_distribution :: matrix
  steps :: "matrix list"

text \<open>\<^verbatim>\<open>self.sensor_probabilities[color][pos, pos] = v\<close>.\<close>

definition set_sensor ::
  "(char \<rightharpoonup> matrix) \<Rightarrow> char \<Rightarrow> nat \<Rightarrow> real \<Rightarrow> error + (char \<rightharpoonup> matrix)" where
  "set_sensor sp color pos v =
     (case sp color of
        None \<Rightarrow> Inl KeyError
      | Some mt \<Rightarrow> ebind (setitem mt pos pos (Fin v)) (\<lambda>mt'. Inr (sp(color \<mapsto> mt'))))"

text \<open>
  The loop \<^verbatim>\<open>for color in self.maze.colors\<close> of \<open>compute_sensor_values\<close>. The right-hand
  side \<^verbatim>\<open>WRONG_COLOR / (self.maze.color_count - 1)\<close> is a division of Python floats: it
  raises \<open>ZeroDivisionError\<close> when \<open>color_count\<close> is 1.
\<close>

fun sensor_loop ::
  "maze \<Rightarrow> char \<Rightarrow> nat \<Rightarrow> char list \<Rightarrow> (char \<rightharpoonup> matrix) \<Rightarrow> error + (char \<rightharpoonup> matrix)" where
  "sensor_loop m c pos [] sp = Inr sp"
| "sensor_loop m c pos (color # rest) sp =
     ebind (if color = c then set_sensor sp color pos CORRECT_COLOR
            else if color_count m = 1 then Inl ZeroDivisionError
            else set_sensor sp color pos (WRONG_COLOR / (real (color_count m) - 1)))
       (\<lambda>sp'. sensor_loop m c pos rest sp')"

definition compute_sensor_values :: "hmm \<Rightarrow> int \<Rightarrow> int \<Rightarrow> error + hmm" where
  "compute_sensor_values h x y =
     (let pos = index (maze h) x y; c = get_char (maze h) x y in
      case c of
        None \<Rightarrow> Inr h
      | Some ch \<Rightarrow>
          if ch \<noteq> CHR ''#'' then
            ebind (sensor_loop (maze h) ch pos (colors (maze h)) (sensor_probabilities h))
              (\<lambda>sp. Inr (h\<lparr>sensor_probabilities := sp\<rparr>))
          else Inr h)"

text \<open>
  One of the four blocks of \<open>compute_transition_matrix\<close>: a traversable neighbour gets
  the probability of the direction at \<^verbatim>\<open>transitions[neighbour_index, current_index]\<close>,
  any other adds it to \<open>stay_put\<close>.
\<close>

definition move ::
  "char option \<Rightarrow> nat \<Rightarrow> nat \<Rightarrow> real \<Rightarrow> matrix \<times> real \<Rightarrow> error + matrix \<times> real" where
  "move neighbour neighbour_index current_index p ts =
     (if is_floor neighbour then
        ebind (setitem (fst ts) neighbour_index current_index (Fin p)) (\<lambda>t. Inr (t, snd ts))
      else Inr (fst ts, snd ts + p))"

definition compute_transition_matrix :: "hmm \<Rightarrow> int \<Rightarrow> int \<Rightarrow> error + hmm" where
  "compute_transition_matrix h x y =
     (let m = maze h; cur = get_char m x y; current_index = index m x y in
      if is_floor cur then
        ebind (move (get_char m x (y - 1)) (index m x (y - 1)) current_index NORTH_PROBABILITY
                 (transitions h, 0)) (\<lambda>ts1.
        ebind (move (get_char m x (y + 1)) (index m x (y + 1)) current_index SOUTH_PROBABILITY
                 ts1) (\<lambda>ts2.
        ebind (move (get_char m (x + 1) y) (index m (x + 1) y) current_index EAST_PROBABILITY
                 ts2) (\<lambda>ts3.
        ebind (move (get_char m (x - 1) y) (index m (x - 1) y) current_index WEST_PROBABILITY
                 ts3) (\<lambda>ts4.
        ebind (setitem (fst ts4) current_index current_index (Fin (snd ts4))) (\<lambda>t.
          Inr (h\<lparr>transitions := t\<rparr>))))))
      else Inr h)"

text \<open>The body of the two loops of \<open>initialize_probabilities\<close>, at the cell \<open>(x, y)\<close>.\<close>

definition visit :: "hmm \<Rightarrow> int \<times> int \<Rightarrow> error + hmm" where
  "visit h p =
     (let x = fst p; y = snd p in
      if is_floor (get_char (maze h) x y) then
        ebind (compute_sensor_values h x y) (\<lambda>h1.
        ebind (compute_transition_matrix h1 x y) (\<lambda>h2.
        if total_positions h2 = 0 then Inl ZeroDivisionError
        else
          ebind (setitem (position_distribution h2) (index (maze h2) x y) 0
                   (Fin (1 / real (total_positions h2)))) (\<lambda>pd.
            Inr (h2\<lparr>position_distribution := pd\<rparr>))))
      else Inr h)"

fun visit_all :: "hmm \<Rightarrow> (int \<times> int) list \<Rightarrow> error + hmm" where
  "visit_all h [] = Inr h"
| "visit_all h (p # ps) = ebind (visit h p) (\<lambda>h'. visit_all h' ps)"

definition initialize_probabilities :: "hmm \<Rightarrow> error + hmm" where
  "initialize_probabilities h =
     ebind (Matrix (total_positions h) 1) (\<lambda>pd.
       visit_all (h\<lparr>position_distribution := pd\<rparr>) (cells (maze h)))"

text \<open>The loop of the constructor that gives every color a zero matrix.\<close>

fun init_sensors :: "nat \<Rightarrow> char list \<Rightarrow> (char \<rightharpoonup> matrix) \<Rightarrow> error + (char \<rightharpoonup> matrix)" where
  "init_sensors n [] sp = Inr sp"
| "init_sensors n (color # rest) sp =
     ebind (Matrix n n) (\<lambda>z. init_sensors n rest (sp(color \<mapsto> z)))"

text \<open>\<^verbatim>\<open>HMM.__init__\<close>, from the grid that \<^verbatim>\<open>Maze(filename)\<close> has loaded.\<close>

definition HMM :: "maze \<Rightarrow> error + hmm" where
  "HMM mz =
     (if count_positions mz = 0 then Inl ValueError
      else
        ebind (init_sensors (count_positions mz) (colors mz) Map.empty) (\<lambda>sp.
        ebind (Matrix (count_positions mz) (count_positions mz)) (\<lambda>t.
        ebind (Matrix (width mz) (height mz)) (\<lambda>pd.
          initialize_probabilities
            \<lparr>maze = mz, total_positions = count_positions mz, sensor_probabilities = sp,
             transitions = t, position_distribution = pd, steps = []\<rparr>))))"

text \<open>A grid of two columns and two rows with one wall, used for the concrete runs.\<close>

definition grid2 :: maze where
  "grid2 =
     \<lparr>width = 2, height = 2,
      get_char = (\<lambda>x y. if x = 0 \<and> y = 0 then Some (CHR ''r'')
                         else if x = 0 \<and> y = 1 then Some (CHR ''g'')
                         else if x = 1 \<and> y = 0 then Some (CHR ''#'')
                         else if x = 1 \<and> y = 1 then Some (CHR ''r'')
                         else None),
      index = (\<lambda>x y. if x = 0 \<and> y = 0 then 0 else if x = 0 \<and> y = 1 then 1 else 2),
      count_positions = 3, colors = ''rg'', color_count = 2\<rparr>"

section \<open>HMM.py: inference\<close>

text \<open>
  \<^verbatim>\<open>readings.lower()\<close> on the letters of ASCII; a string is modelled as the list of
  its characters, and characters outside ASCII are not modelled.
\<close>

definition lower_char :: "char \<Rightarrow> char" where
  "lower_char c =
     (let n = (of_char c :: nat) in if 65 \<le> n \<and> n \<le> 90 then char_of (n + 32) else c)"

definition lower :: "string \<Rightarrow> string" where
  "lower s = map lower_char s"

text \<open>A loop whose body may raise: the first exception ends it.\<close>

fun efold :: "('a \<Rightarrow> 's \<Rightarrow> error + 's) \<Rightarrow> 'a list \<Rightarrow> 's \<Rightarrow> error + 's" where
  "efold f [] s = Inr s"
| "efold f (x # xs) s = ebind (f x s) (efold f xs)"

text \<open>
  A method that writes the engine returns the exception it raised, if any, and the
  engine as the call leaves it.
\<close>

text \<open>
  \<^verbatim>\<open>self.sensor_probabilities[reading] * (self.transitions.transpose() * distribution)\<close>:
  the dictionary lookup comes first.
\<close>

definition forward_update :: "hmm \<Rightarrow> char \<Rightarrow> matrix \<Rightarrow> error + matrix" where
  "forward_update h reading distribution =
     (case sensor_probabilities h reading of
        None \<Rightarrow> Inl KeyError
      | Some e \<Rightarrow> ebind (mul (transpose_m (transitions h)) distribution) (\<lambda>v. mul e v))"

fun forward_loop :: "hmm \<Rightarrow> string \<Rightarrow> matrix \<Rightarrow> error option \<times> hmm" where
  "forward_loop h [] distribution = (None, h)"
| "forward_loop h (reading # rest) distribution =
     (case forward_update h reading distribution of
        Inl e \<Rightarrow> (Some e, h)
      | Inr d \<Rightarrow>
          forward_loop (h\<lparr>steps := steps h @ [normalize_m d]\<rparr>) rest (normalize_m d))"

definition forward :: "hmm \<Rightarrow> string \<Rightarrow> error option \<times> hmm" where
  "forward h readings0 =
     (let readings = lower readings0 in
      if \<exists>reading \<in> set readings. reading \<notin> set (colors (maze h)) then (Some ValueError, h)
      else
        let distribution = copy (position_distribution h);
            h1 = (if steps h \<noteq> [] then h\<lparr>steps := []\<rparr> else h);
            h2 = h1\<lparr>steps := steps h1 @ [distribution]\<rparr>
        in forward_loop h2 readings distribution)"

text \<open>
  The loop \<^verbatim>\<open>for step in range(len(self.steps) - 1, 0, -1)\<close> of \<open>backward\<close>, from
  \<open>step\<close> down to 1.
\<close>

fun backward_loop :: "hmm \<Rightarrow> string \<Rightarrow> nat \<Rightarrow> matrix \<Rightarrow> error option \<times> hmm" where
  "backward_loop h readings 0 vector = (None, h)"
| "backward_loop h readings (Suc k) vector =
     (case multiply (steps h ! Suc k) vector of
        Inl e \<Rightarrow> (Some e, h)
      | Inr s \<Rightarrow>
          let h1 = h\<lparr>steps := list_update (steps h) (Suc k) (normalize_m s)\<rparr> in
          if length readings \<le> k then (Some IndexError, h1)
          else
            case sensor_probabilities h1 (readings ! k) of
              None \<Rightarrow> (Some KeyError, h1)
            | Some e \<Rightarrow>
                (case ebind (mul e vector) (\<lambda>w. mul (transitions h1) w) of
                   Inl er \<Rightarrow> (Some er, h1)
                 | Inr v \<Rightarrow> backward_loop h1 readings k v))"

definition backward :: "hmm \<Rightarrow> string \<Rightarrow> error option \<times> hmm" where
  "backward h readings0 =
     (let readings = lower readings0;
          vector = ones (count_positions (maze h)) 1;
          r = (if steps h = [] then forward h readings else (None, h))
      in case fst r of
           Some e \<Rightarrow> (Some e, snd r)
         | None \<Rightarrow> backward_loop (snd r) readings (length (steps (snd r)) - 1) vector)"

text \<open>
  \<open>viterbi\<close>. The first loop: \<^verbatim>\<open>delta[0, pos] = initial_probabilities[pos, 0] *
  transitions[pos, pos]\<close>.
\<close>

definition viterbi_first :: "hmm \<Rightarrow> nat \<Rightarrow> matrix \<Rightarrow> error + matrix" where
  "viterbi_first h pos delta =
     ebind (getitem (position_distribution h) pos 0) (\<lambda>p.
     ebind (getitem (transitions h) pos pos) (\<lambda>a.
       setitem delta 0 pos (fmul p a)))"

definition viterbi_init :: "hmm \<Rightarrow> string \<Rightarrow> error + matrix" where
  "viterbi_init h readings =
     efold (viterbi_first h) [0..<total_positions h]
       (zeros (length readings) (total_positions h))"

text \<open>
  The body of \<^verbatim>\<open>for prev in range(self.total_positions)\<close>, on the pair of \<open>delta\<close> and
  \<open>predecessors\<close>; \<^verbatim>\<open>Matrix.normalize(delta)\<close> is inside the \<^verbatim>\<open>if\<close>.
\<close>

definition viterbi_prev ::
  "hmm \<Rightarrow> nat \<Rightarrow> nat \<Rightarrow> nat \<Rightarrow> matrix \<times> matrix \<Rightarrow> error + matrix \<times> matrix" where
  "viterbi_prev h t cur prev dp =
     ebind (getitem (fst dp) t cur) (\<lambda>d.
     ebind (getitem (fst dp) (t - 1) prev) (\<lambda>d1.
     ebind (getitem (transitions h) prev cur) (\<lambda>a.
       if fless d (fmul d1 a) then
         ebind (setitem (fst dp) t cur (fmul d1 a)) (\<lambda>delta'.
         ebind (setitem (snd dp) t cur (Fin (real prev))) (\<lambda>predecessors'.
           Inr (normalize_m delta', predecessors')))
       else Inr dp)))"

text \<open>\<^verbatim>\<open>delta[t, cur] *= emissions[readings[t]][cur, cur]\<close>.\<close>

definition viterbi_emit :: "hmm \<Rightarrow> char \<Rightarrow> nat \<Rightarrow> nat \<Rightarrow> matrix \<Rightarrow> error + matrix" where
  "viterbi_emit h reading t cur delta =
     ebind (getitem delta t cur) (\<lambda>d.
       case sensor_probabilities h reading of
         None \<Rightarrow> Inl KeyError
       | Some e \<Rightarrow> ebind (getitem e cur cur) (\<lambda>b. setitem delta t cur (fmul d b)))"

definition viterbi_curr ::
  "hmm \<Rightarrow> string \<Rightarrow> nat \<Rightarrow> nat \<Rightarrow> matrix \<times> matrix \<Rightarrow> error + matrix \<times> matrix" where
  "viterbi_curr h readings t cur dp =
     ebind (efold (viterbi_prev h t cur) [0..<total_positions h] dp) (\<lambda>dp'.
     ebind (viterbi_emit h (readings ! t) t cur (fst dp')) (\<lambda>delta'.
       Inr (delta', snd dp')))"

definition viterbi_step ::
  "hmm \<Rightarrow> string \<Rightarrow> nat \<Rightarrow> matrix \<times> matrix \<Rightarrow> error + matrix \<times> matrix" where
  "viterbi_step h readings t dp = efold (viterbi_curr h readings t) [0..<total_positions h] dp"

text \<open>\<open>delta\<close> and \<open>predecessors\<close> as they are when the loop over \<open>t\<close> has ended.\<close>

definition viterbi_tables :: "hmm \<Rightarrow> string \<Rightarrow> error + matrix \<times> matrix" where
  "viterbi_tables h readings =
     ebind (viterbi_init h readings) (\<lambda>delta.
       efold (viterbi_step h readings) [1..<length readings]
         (delta, copy (zeros (length readings) (total_positions h))))"

text \<open>
  The end of \<open>viterbi\<close>: the last state, then the walk back along \<open>predecessors\<close>.
  \<open>path\<close> is a one-dimensional array; \<^verbatim>\<open>int(path[index])\<close> truncates, and raises on
  \<open>nan\<close> and on an infinity.
\<close>

definition py_int :: "npfloat \<Rightarrow> error + int" where
  "py_int v =
     (case v of
        Fin a \<Rightarrow> Inr (if 0 \<le> a then \<lfloor>a\<rfloor> else \<lceil>a\<rceil>)
      | NaN \<Rightarrow> Inl ValueError
      | _ \<Rightarrow> Inl OverflowError)"

definition py_index :: "nat \<Rightarrow> int \<Rightarrow> error + nat" where
  "py_index n i =
     (if 0 \<le> i \<and> i < int n then Inr (nat i)
      else if - int n \<le> i \<and> i < 0 then Inr (nat (int n + i))
      else Inl IndexError)"

definition viterbi_last ::
  "matrix \<Rightarrow> nat \<Rightarrow> nat \<Rightarrow> npfloat \<times> npfloat list \<Rightarrow> error + npfloat \<times> npfloat list" where
  "viterbi_last delta n step mp =
     ebind (getitem delta (n - 1) step) (\<lambda>d.
       if fless (fst mp) d then
         (if n = 0 then Inl IndexError
          else Inr (d, (snd mp)[n - 1 := Fin (real step)]))
       else Inr mp)"

definition viterbi_back :: "matrix \<Rightarrow> nat \<Rightarrow> nat \<Rightarrow> npfloat list \<Rightarrow> error + npfloat list" where
  "viterbi_back predecessors n t path =
     (let index = n - t in
      ebind (py_int (path ! index)) (\<lambda>i.
      ebind (py_index (cols predecessors) i) (\<lambda>c.
      ebind (getitem predecessors index c) (\<lambda>v.
        Inr (path[index - 1 := v])))))"

definition viterbi_path :: "hmm \<Rightarrow> string \<Rightarrow> matrix \<times> matrix \<Rightarrow> error + npfloat list" where
  "viterbi_path h readings dp =
     (let n = length readings in
      ebind (efold (viterbi_last (fst dp) n) [0..<total_positions h]
               (Fin 0, replicate n (Fin 0))) (\<lambda>mp.
        efold (viterbi_back (snd dp) n) [1..<n] (snd mp)))"

text \<open>\<open>viterbi\<close> writes no field of the engine.\<close>

definition viterbi :: "hmm \<Rightarrow> string \<Rightarrow> (error + npfloat list) \<times> hmm" where
  "viterbi h readings0 =
     (let readings = lower readings0 in
      (ebind (viterbi_tables h readings) (viterbi_path h readings), h))"

section \<open>A concrete engine\<close>

text \<open>The engine that the constructor builds from \<open>grid2\<close> (lemma \<open>HMM_grid2\<close>).\<close>

definition grid2_engine :: hmm where
  "grid2_engine =
     \<lparr>maze = grid2, total_positions = 3,
      sensor_probabilities =
        [CHR ''r'' \<mapsto> [[Fin (22 / 25), Fin 0, Fin 0], [Fin 0, Fin (3 / 25), Fin 0],
                         [Fin 0, Fin 0, Fin (22 / 25)]],
         CHR ''g'' \<mapsto> [[Fin (3 / 25), Fin 0, Fin 0], [Fin 0, Fin (22 / 25), Fin 0],
                         [Fin 0, Fin 0, Fin (3 / 25)]]],
      transitions =
        [[Fin (3 / 4), Fin (1 / 4), Fin 0],
         [Fin (1 / 4), Fin (1 / 2), Fin (1 / 4)],
         [Fin 0, Fin (1 / 4), Fin (3 / 4)]],
      position_distribution = [[Fin (1 / 3)], [Fin (1 / 3)], [Fin (1 / 3)]],
      steps = []\<rparr>"

text \<open>The same engine after a first call \<^verbatim>\<open>forward("RG")\<close>.\<close>

definition grid2_after :: hmm where
  "grid2_after = snd (forward grid2_engine ''RG'')"

section \<open>What the builder leaves in the matrices\<close>

text \<open>The vocabulary of the proofs: shapes, and the entries after the cells \<open>ps\<close> are visited.\<close>

definition mat :: "nat \<Rightarrow> nat \<Rightarrow> matrix \<Rightarrow> bool" where
  "mat r c M \<longleftrightarrow> length M = r \<and> (\<forall>i < r. length (M ! i) = c)"

definition upd :: "matrix \<Rightarrow> nat \<Rightarrow> nat \<Rightarrow> npfloat \<Rightarrow> matrix" where
  "upd M i j v = M[i := (M ! i)[j := v]]"

definition stay_mass :: "maze \<Rightarrow> int \<times> int \<Rightarrow> real" where
  "stay_mass m p =
     MOVE_PROBABILITY * real (length (filter (\<lambda>q. \<not> floor_at m q) (neighbours p)))"

definition tcol :: "maze \<Rightarrow> int \<times> int \<Rightarrow> nat \<Rightarrow> real" where
  "tcol m p a =
     (if a = index_of m p then stay_mass m p
      else if \<exists>q \<in> set (neighbours p). floor_at m q \<and> index_of m q = a then MOVE_PROBABILITY
      else 0)"

definition cell_at :: "maze \<Rightarrow> (int \<times> int) list \<Rightarrow> nat \<Rightarrow> (int \<times> int) option" where
  "cell_at m ps s = find (\<lambda>p. floor_at m p \<and> index_of m p = s) ps"

definition trans_val :: "maze \<Rightarrow> (int \<times> int) list \<Rightarrow> nat \<Rightarrow> nat \<Rightarrow> real" where
  "trans_val m ps a b = (case cell_at m ps b of None \<Rightarrow> 0 | Some p \<Rightarrow> tcol m p a)"

definition sensor_val :: "maze \<Rightarrow> char \<Rightarrow> char \<Rightarrow> real" where
  "sensor_val m ch color =
     (if color = ch then CORRECT_COLOR else WRONG_COLOR / (real (color_count m) - 1))"

definition emit_val :: "maze \<Rightarrow> (int \<times> int) list \<Rightarrow> char \<Rightarrow> nat \<Rightarrow> nat \<Rightarrow> real" where
  "emit_val m ps color a b =
     (if a = b then
        (case cell_at m ps a of
           None \<Rightarrow> 0
         | Some p \<Rightarrow> sensor_val m (the (get_char m (fst p) (snd p))) color)
      else 0)"

definition init_val :: "maze \<Rightarrow> (int \<times> int) list \<Rightarrow> nat \<Rightarrow> real" where
  "init_val m ps a =
     (case cell_at m ps a of None \<Rightarrow> 0 | Some p \<Rightarrow> 1 / real (count_positions m))"

definition built :: "maze \<Rightarrow> (int \<times> int) list \<Rightarrow> hmm \<Rightarrow> bool" where
  "built m ps h \<longleftrightarrow>
     maze h = m \<and> total_positions h = count_positions m \<and> steps h = [] \<and>
     mat (count_positions m) (count_positions m) (transitions h) \<and>
     mat (count_positions m) 1 (position_distribution h) \<and>
     (\<forall>a < count_positions m. \<forall>b < count_positions m.
        transitions h ! a ! b = Fin (trans_val m ps a b)) \<and>
     (\<forall>a < count_positions m. position_distribution h ! a ! 0 = Fin (init_val m ps a)) \<and>
     (\<forall>c. c \<notin> set (colors m) \<longrightarrow> sensor_probabilities h c = None) \<and>
     (\<forall>c \<in> set (colors m). \<exists>E. sensor_probabilities h c = Some E \<and>
        mat (count_positions m) (count_positions m) E \<and>
        (\<forall>a < count_positions m. \<forall>b < count_positions m.
           E ! a ! b = Fin (emit_val m ps c a b)))"

section \<open>Properties\<close>

subsection \<open>Matrices and the grid\<close>

lemma ebind_Inr [simp]: "ebind (Inr v) f = f v"
  by (simp add: ebind_def)

lemma ebind_Inl [simp]: "ebind (Inl e) f = Inl e"
  by (simp add: ebind_def)

lemma setitem_upd: "mat r c M \<Longrightarrow> i < r \<Longrightarrow> j < c \<Longrightarrow> setitem M i j v = Inr (upd M i j v)"
  by (simp add: setitem_def mat_def upd_def)

lemma mat_upd: "mat r c M \<Longrightarrow> mat r c (upd M i j v)"
  unfolding mat_def upd_def
  by (cases "i < length M") (auto simp: nth_list_update)

lemma nth_upd:
  "mat r c M \<Longrightarrow> a < r \<Longrightarrow> b < c \<Longrightarrow>
   upd M i j v ! a ! b = (if a = i \<and> b = j then v else M ! a ! b)"
  unfolding mat_def upd_def
  by (cases "i < length M") (auto simp: nth_list_update)

lemma mat_np_zeros: "mat r c (np_zeros r c)"
  by (simp add: mat_def np_zeros_def)

lemma nth_np_zeros: "a < r \<Longrightarrow> b < c \<Longrightarrow> np_zeros r c ! a ! b = Fin 0"
  by (simp add: np_zeros_def)

lemma fsum_Fin: "fsum (map Fin xs) = Fin (sum_list xs)"
proof -
  have "foldl fadd (Fin s) (map Fin xs) = Fin (s + sum_list xs)" for s
    by (induction xs arbitrary: s) (simp_all add: add.assoc)
  from this [of 0] show ?thesis by (simp add: fsum_def)
qed

lemma cells_product:
  "cells m = map (\<lambda>p. (int (fst p), int (snd p))) (List.product [0..<width m] [0..<height m])"
  by (simp add: cells_def product_concat_map map_concat comp_def)

lemma distinct_cells: "distinct (cells m)"
  unfolding cells_product
  by (rule iffD2 [OF distinct_map]) (auto simp: distinct_product inj_on_def)

lemma floor_cells_iff: "p \<in> set (floor_cells m) \<longleftrightarrow> p \<in> set (cells m) \<and> floor_at m p"
  by (simp add: floor_cells_def)

lemma wf_mazeD:
  assumes "wf_maze m"
  shows "distinct (map (index_of m) (floor_cells m))"
    and "\<And>p. p \<in> set (floor_cells m) \<Longrightarrow> index_of m p < count_positions m"
    and "count_positions m = length (floor_cells m)"
    and "\<And>p q. p \<in> set (cells m) \<Longrightarrow> q \<in> set (neighbours p) \<Longrightarrow> floor_at m q \<Longrightarrow>
           q \<in> set (cells m)"
    and "distinct (colors m)"
    and "color_count m = length (colors m)"
    and "\<And>p. p \<in> set (floor_cells m) \<Longrightarrow>
           \<exists>c \<in> set (colors m). get_char m (fst p) (snd p) = Some c"
proof -
  from assms have w:
    "distinct (map (index_of m) (floor_cells m)) \<and>
     (\<forall>p \<in> set (floor_cells m). index_of m p < count_positions m) \<and>
     count_positions m = length (floor_cells m) \<and>
     (\<forall>p \<in> set (cells m). \<forall>q \<in> set (neighbours p). floor_at m q \<longrightarrow> q \<in> set (cells m)) \<and>
     distinct (colors m) \<and> color_count m = length (colors m) \<and>
     (\<forall>p \<in> set (floor_cells m). \<exists>c \<in> set (colors m). get_char m (fst p) (snd p) = Some c)"
    unfolding wf_maze_def .
  have a: "distinct (map (index_of m) (floor_cells m))"
    using w by (elim conjE)
  have b: "\<forall>p \<in> set (floor_cells m). index_of m p < count_positions m"
    using w by (elim conjE)
  have c: "count_positions m = length (floor_cells m)"
    using w by (elim conjE)
  have d: "\<forall>p \<in> set (cells m). \<forall>q \<in> set (neighbours p). floor_at m q \<longrightarrow> q \<in> set (cells m)"
    using w by (elim conjE)
  have e: "distinct (colors m)"
    using w by (elim conjE)
  have f: "color_count m = length (colors m)"
    using w by (elim conjE)
  have g: "\<forall>p \<in> set (floor_cells m). \<exists>c \<in> set (colors m). get_char m (fst p) (snd p) = Some c"
    using w by (elim conjE)
  show "distinct (map (index_of m) (floor_cells m))" by (rule a)
  show "\<And>p. p \<in> set (floor_cells m) \<Longrightarrow> index_of m p < count_positions m"
    using b by (rule bspec)
  show "count_positions m = length (floor_cells m)" by (rule c)
  show "\<And>p q. p \<in> set (cells m) \<Longrightarrow> q \<in> set (neighbours p) \<Longrightarrow> floor_at m q \<Longrightarrow>
           q \<in> set (cells m)"
    using d by (meson bspec)
  show "distinct (colors m)" by (rule e)
  show "color_count m = length (colors m)" by (rule f)
  show "\<And>p. p \<in> set (floor_cells m) \<Longrightarrow>
           \<exists>c \<in> set (colors m). get_char m (fst p) (snd p) = Some c"
    using g by (rule bspec)
qed

lemma wf_index_lt:
  "wf_maze m \<Longrightarrow> p \<in> set (cells m) \<Longrightarrow> floor_at m p \<Longrightarrow> index_of m p < count_positions m"
  by (rule wf_mazeD(2)) (simp_all add: floor_cells_iff)

lemma wf_index_inj:
  assumes "wf_maze m" "p \<in> set (cells m)" "floor_at m p" "q \<in> set (cells m)" "floor_at m q"
    "index_of m p = index_of m q"
  shows "p = q"
proof -
  have inj: "inj_on (index_of m) (set (floor_cells m))"
    using wf_mazeD(1) [OF assms(1)] by (simp add: distinct_map)
  have pq: "p \<in> set (floor_cells m)" "q \<in> set (floor_cells m)"
    using assms by (simp_all add: floor_cells_iff)
  show ?thesis
    by (rule inj_onD [OF inj assms(6) pq])
qed

lemma wf_neighbour:
  "wf_maze m \<Longrightarrow> p \<in> set (cells m) \<Longrightarrow> q \<in> set (neighbours p) \<Longrightarrow> floor_at m q \<Longrightarrow>
   q \<in> set (cells m)"
  by (rule wf_mazeD(4))

lemma wf_color:
  "wf_maze m \<Longrightarrow> p \<in> set (cells m) \<Longrightarrow> floor_at m p \<Longrightarrow>
   \<exists>c \<in> set (colors m). get_char m (fst p) (snd p) = Some c"
  by (rule wf_mazeD(7)) (simp_all add: floor_cells_iff)

subsection \<open>The constructor\<close>

lemma move_eq:
  "mat n n T \<Longrightarrow> s < n \<Longrightarrow> (is_floor c \<longrightarrow> ni < n) \<Longrightarrow>
   move c ni s p (T, st) =
     Inr (if is_floor c then upd T ni s (Fin p) else T, if is_floor c then st else st + p)"
  by (simp add: move_def setitem_upd)

lemma compute_transition_matrix_eq:
  assumes wf: "wf_maze m" and p: "p \<in> set (cells m)" "floor_at m p"
    and h: "maze h = m" "mat (count_positions m) (count_positions m) (transitions h)"
  shows "\<exists>T'. compute_transition_matrix h (fst p) (snd p) = Inr (h\<lparr>transitions := T'\<rparr>) \<and>
           mat (count_positions m) (count_positions m) T' \<and>
           (\<forall>a < count_positions m. \<forall>b < count_positions m.
              T' ! a ! b =
                (if b = index_of m p then
                   (if a = index_of m p then Fin (stay_mass m p)
                    else if \<exists>q \<in> set (neighbours p). floor_at m q \<and> index_of m q = a
                      then Fin MOVE_PROBABILITY
                    else transitions h ! a ! b)
                 else transitions h ! a ! b))"
proof -
  define n where "n = count_positions m"
  define s where "s = index_of m p"
  define T where "T = transitions h"
  define x where "x = fst p"
  define y where "y = snd p"
  define P where "P = MOVE_PROBABILITY"
  have sn: "s < n"
    using wf p by (simp add: s_def n_def wf_index_lt)
  have nb: "floor_at m q \<Longrightarrow> q \<in> set (neighbours p) \<Longrightarrow> index_of m q < n" for q
    using wf p wf_neighbour [OF wf p(1)] by (simp add: n_def wf_index_lt)
  define w where "w = (\<lambda>q (U :: matrix). if floor_at m q then upd U (index_of m q) s (Fin P) else U)"
  define k where "k = (\<lambda>q (st :: real). if floor_at m q then st else st + P)"
  have matw: "mat n n U \<Longrightarrow> mat n n (w q U)" for q U
    by (simp add: w_def mat_upd)
  have mv: "mat n n U \<Longrightarrow> q \<in> set (neighbours p) \<Longrightarrow>
      move (get_char m (fst q) (snd q)) (index m (fst q) (snd q)) s P (U, st) = Inr (w q U, k q st)"
    for q U st
    using nb [of q] sn
    by (subst move_eq [where n = n]) (auto simp: w_def k_def floor_at_def index_of_def)
  define q1 where "q1 = (x, y - 1)"
  define q2 where "q2 = (x, y + 1)"
  define q3 where "q3 = (x + 1, y)"
  define q4 where "q4 = (x - 1, y)"
  have nbs: "neighbours p = [q1, q2, q3, q4]"
    by (simp add: neighbours_def q1_def q2_def q3_def q4_def x_def y_def)
  define T1 where "T1 = w q1 T"
  define T2 where "T2 = w q2 T1"
  define T3 where "T3 = w q3 T2"
  define T4 where "T4 = w q4 T3"
  define st where "st = k q4 (k q3 (k q2 (k q1 0)))"
  have mT: "mat n n T"
    using h by (simp add: T_def n_def)
  have m1: "mat n n T1" and m2: "mat n n T2" and m3: "mat n n T3" and m4: "mat n n T4"
    using mT by (simp_all add: T1_def T2_def T3_def T4_def matw)
  have e1: "move (get_char m x (y - 1)) (index m x (y - 1)) s P (T, 0) = Inr (T1, k q1 0)"
    using mv [OF mT, of q1 0] by (simp add: nbs q1_def T1_def)
  have e2: "move (get_char m x (y + 1)) (index m x (y + 1)) s P (T1, k q1 0) = Inr (T2, k q2 (k q1 0))"
    using mv [OF m1, of q2] by (simp add: nbs q2_def T2_def)
  have e3: "move (get_char m (x + 1) y) (index m (x + 1) y) s P (T2, k q2 (k q1 0))
      = Inr (T3, k q3 (k q2 (k q1 0)))"
    using mv [OF m2, of q3] by (simp add: nbs q3_def T3_def)
  have e4: "move (get_char m (x - 1) y) (index m (x - 1) y) s P (T3, k q3 (k q2 (k q1 0)))
      = Inr (T4, st)"
    using mv [OF m3, of q4] by (simp add: nbs q4_def T4_def st_def)
  have fl: "is_floor (get_char m x y)"
    using p(2) by (simp add: floor_at_def x_def y_def)
  have sx: "index m x y = s"
    by (simp add: s_def index_of_def x_def y_def)
  have run: "compute_transition_matrix h (fst p) (snd p) = Inr (h\<lparr>transitions := upd T4 s s (Fin st)\<rparr>)"
    unfolding compute_transition_matrix_def Let_def
    using fl e1 e2 e3 e4 sn m4
    by (simp add: h(1) x_def [symmetric] y_def [symmetric] sx
        T_def [symmetric] NORTH_PROBABILITY_def SOUTH_PROBABILITY_def EAST_PROBABILITY_def
        WEST_PROBABILITY_def P_def [symmetric] setitem_upd [where r = n and c = n])
  have stm: "st = stay_mass m p"
    by (simp add: st_def k_def stay_mass_def nbs P_def algebra_simps)
  have wnth: "mat n n U \<Longrightarrow> a < n \<Longrightarrow> b < n \<Longrightarrow>
      w q U ! a ! b = (if floor_at m q \<and> a = index_of m q \<and> b = s then Fin P else U ! a ! b)"
    for q U a b
    by (simp add: w_def nth_upd [where r = n and c = n])
  have ent: "upd T4 s s (Fin st) ! a ! b =
      (if b = s then
         (if a = s then Fin (stay_mass m p)
          else if \<exists>q \<in> set (neighbours p). floor_at m q \<and> index_of m q = a then Fin P
          else T ! a ! b)
       else T ! a ! b)" if "a < n" "b < n" for a b
    using that m1 m2 m3 m4 mT
    by (simp add: nth_upd [where r = n and c = n] T4_def T3_def T2_def T1_def wnth stm nbs)
  show ?thesis
    using run ent mat_upd [OF m4]
    by (intro exI [of _ "upd T4 s s (Fin st)"])
      (auto simp add: n_def [symmetric] s_def [symmetric] T_def [symmetric] P_def [symmetric])
qed

lemma set_sensor_eq:
  "sp c = Some E \<Longrightarrow> mat n n E \<Longrightarrow> pos < n \<Longrightarrow>
   set_sensor sp c pos v = Inr (sp(c \<mapsto> upd E pos pos (Fin v)))"
  by (simp add: set_sensor_def setitem_upd)

lemma sensor_loop_eq:
  assumes "distinct cs" "pos < n"
    and "\<forall>c \<in> set cs. \<exists>E. sp c = Some E \<and> mat n n E"
    and "color_count m = 1 \<longrightarrow> (\<forall>c \<in> set cs. c = ch)"
  shows "sensor_loop m ch pos cs sp =
     Inr (\<lambda>c. if c \<in> set cs
               then map_option (\<lambda>E. upd E pos pos (Fin (sensor_val m ch c))) (sp c)
               else sp c)"
  using assms
proof (induction cs arbitrary: sp)
  case Nil
  then show ?case by simp
next
  case (Cons c cs)
  from Cons.prems obtain E where E: "sp c = Some E" "mat n n E"
    by auto
  define v where "v = sensor_val m ch c"
  define sp1 where "sp1 = sp(c \<mapsto> upd E pos pos (Fin v))"
  have first: "(if c = ch then set_sensor sp c pos CORRECT_COLOR
        else if color_count m = 1 then Inl ZeroDivisionError
        else set_sensor sp c pos (WRONG_COLOR / (real (color_count m) - 1))) = Inr sp1"
    using Cons.prems E
    by (auto simp: set_sensor_eq [where n = n] sp1_def v_def sensor_val_def)
  have rest: "sensor_loop m ch pos cs sp1 =
     Inr (\<lambda>c. if c \<in> set cs
               then map_option (\<lambda>E. upd E pos pos (Fin (sensor_val m ch c))) (sp1 c)
               else sp1 c)"
    using Cons.prems by (intro Cons.IH) (auto simp: sp1_def mat_upd)
  have "(\<lambda>x. if x \<in> set cs
               then map_option (\<lambda>E. upd E pos pos (Fin (sensor_val m ch x))) (sp1 x)
               else sp1 x) =
        (\<lambda>x. if x \<in> set (c # cs)
               then map_option (\<lambda>E. upd E pos pos (Fin (sensor_val m ch x))) (sp x)
               else sp x)"
    using Cons.prems(1) E by (auto simp: sp1_def v_def fun_eq_iff)
  with first rest show ?case
    by simp
qed

lemma find_app:
  "find P (xs @ ys) = (case find P xs of None \<Rightarrow> find P ys | Some x \<Rightarrow> Some x)"
  by (induction xs) simp_all

lemma cell_at_snoc:
  "cell_at m (ps @ [p]) s =
     (case cell_at m ps s of
        Some q \<Rightarrow> Some q
      | None \<Rightarrow> if floor_at m p \<and> index_of m p = s then Some p else None)"
  by (simp add: cell_at_def find_app split: option.splits)

lemma cell_at_SomeD:
  "cell_at m ps s = Some q \<Longrightarrow> q \<in> set ps \<and> floor_at m q \<and> index_of m q = s"
  by (auto simp: cell_at_def find_Some_iff)

lemma cell_at_fresh:
  assumes "wf_maze m" "p \<in> set (cells m)" "floor_at m p" "p \<notin> set ps" "set ps \<subseteq> set (cells m)"
  shows "cell_at m ps (index_of m p) = None"
proof (cases "cell_at m ps (index_of m p)")
  case None
  then show ?thesis .
next
  case (Some q)
  from cell_at_SomeD [OF Some] have q: "q \<in> set ps" "floor_at m q" "index_of m q = index_of m p"
    by simp_all
  with assms have "q = p"
    by (intro wf_index_inj [of m q p]) auto
  with q assms(4) show ?thesis by simp
qed

lemma cell_at_snoc_floor:
  assumes "wf_maze m" "p \<in> set (cells m)" "floor_at m p" "p \<notin> set ps" "set ps \<subseteq> set (cells m)"
  shows "cell_at m (ps @ [p]) b = (if b = index_of m p then Some p else cell_at m ps b)"
  using cell_at_fresh [OF assms] assms(3)
  by (auto simp: cell_at_snoc split: option.splits)

lemma cell_at_snoc_wall: "\<not> floor_at m p \<Longrightarrow> cell_at m (ps @ [p]) b = cell_at m ps b"
  by (simp add: cell_at_snoc split: option.splits)

lemma visit_wall: "\<not> floor_at (maze h) p \<Longrightarrow> visit h p = Inr h"
  by (simp add: visit_def floor_at_def)

lemma vals_snoc_wall:
  assumes "\<not> floor_at m p"
  shows "trans_val m (ps @ [p]) = trans_val m ps"
    and "init_val m (ps @ [p]) = init_val m ps"
    and "emit_val m (ps @ [p]) = emit_val m ps"
  using assms
  by (simp_all add: fun_eq_iff trans_val_def init_val_def emit_val_def cell_at_snoc_wall)

lemma built_wall: "built m ps h \<Longrightarrow> \<not> floor_at m p \<Longrightarrow> built m (ps @ [p]) h"
  by (simp add: built_def vals_snoc_wall)

lemma compute_sensor_values_eq:
  assumes wf: "wf_maze m" and p: "p \<in> set (cells m)" "floor_at m p"
    and h: "maze h = m"
      "\<forall>c \<in> set (colors m). \<exists>E. sensor_probabilities h c = Some E \<and>
         mat (count_positions m) (count_positions m) E"
  shows "compute_sensor_values h (fst p) (snd p) =
     Inr (h\<lparr>sensor_probabilities :=
       (\<lambda>c. if c \<in> set (colors m)
             then map_option (\<lambda>E. upd E (index_of m p) (index_of m p)
                    (Fin (sensor_val m (the (get_char m (fst p) (snd p))) c)))
                    (sensor_probabilities h c)
             else sensor_probabilities h c)\<rparr>)"
proof -
  from wf_color [OF wf p] obtain ch where ch: "ch \<in> set (colors m)"
    "get_char m (fst p) (snd p) = Some ch"
    by auto
  from p(2) ch(2) have nw: "ch \<noteq> CHR ''#''"
    by (auto simp: floor_at_def is_floor_def)
  have one: "color_count m = 1 \<longrightarrow> (\<forall>c \<in> set (colors m). c = ch)"
  proof (intro impI ballI)
    fix c assume "color_count m = 1" "c \<in> set (colors m)"
    then obtain c0 where "colors m = [c0]"
      using wf_mazeD(6) [OF wf] by (cases "colors m") auto
    with ch(1) \<open>c \<in> set (colors m)\<close> show "c = ch" by simp
  qed
  have "sensor_loop m ch (index_of m p) (colors m) (sensor_probabilities h) =
     Inr (\<lambda>c. if c \<in> set (colors m)
               then map_option (\<lambda>E. upd E (index_of m p) (index_of m p) (Fin (sensor_val m ch c)))
                      (sensor_probabilities h c)
               else sensor_probabilities h c)"
    using wf_mazeD(5) [OF wf] wf_index_lt [OF wf p] h(2) one
    by (rule sensor_loop_eq)
  then show ?thesis
    using ch(2) nw
    by (simp add: compute_sensor_values_def h(1) index_of_def cong: if_cong)
qed

lemma vals_snoc_floor:
  assumes "wf_maze m" "p \<in> set (cells m)" "floor_at m p" "p \<notin> set ps" "set ps \<subseteq> set (cells m)"
  shows "trans_val m (ps @ [p]) a b = (if b = index_of m p then tcol m p a else trans_val m ps a b)"
    and "init_val m (ps @ [p]) a =
           (if a = index_of m p then 1 / real (count_positions m) else init_val m ps a)"
    and "emit_val m (ps @ [p]) c a b =
           (if a = index_of m p \<and> b = index_of m p
            then sensor_val m (the (get_char m (fst p) (snd p))) c
            else emit_val m ps c a b)"
    and "trans_val m ps a (index_of m p) = 0"
  using cell_at_fresh [OF assms]
  by (auto simp: trans_val_def init_val_def emit_val_def cell_at_snoc_floor [OF assms])

lemma built_floor:
  assumes wf: "wf_maze m" and p: "p \<in> set (cells m)" "floor_at m p"
    and fresh: "p \<notin> set ps" "set ps \<subseteq> set (cells m)"
    and b: "built m ps h"
  shows "\<exists>h'. visit h p = Inr h' \<and> built m (ps @ [p]) h'"
proof -
  define n where "n = count_positions m"
  define s where "s = index_of m p"
  define ch where "ch = the (get_char m (fst p) (snd p))"
  note vals = vals_snoc_floor [OF wf p fresh, folded s_def n_def ch_def]
  from b have hm: "maze h = m" and tp: "total_positions h = n" and st: "steps h = []"
    and mT: "mat n n (transitions h)" and mP: "mat n 1 (position_distribution h)"
    and eT: "\<forall>a < n. \<forall>b < n. transitions h ! a ! b = Fin (trans_val m ps a b)"
    and eP: "\<forall>a < n. position_distribution h ! a ! 0 = Fin (init_val m ps a)"
    and sN: "\<forall>c. c \<notin> set (colors m) \<longrightarrow> sensor_probabilities h c = None"
    and sS: "\<forall>c \<in> set (colors m). \<exists>E. sensor_probabilities h c = Some E \<and> mat n n E \<and>
               (\<forall>a < n. \<forall>b < n. E ! a ! b = Fin (emit_val m ps c a b))"
    unfolding built_def n_def by simp_all
  have sn: "s < n"
    using wf_index_lt [OF wf p] by (simp add: s_def n_def)
  define sp where "sp = (\<lambda>c. if c \<in> set (colors m)
             then map_option (\<lambda>E. upd E s s (Fin (sensor_val m ch c))) (sensor_probabilities h c)
             else sensor_probabilities h c)"
  define h1 where "h1 = h\<lparr>sensor_probabilities := sp\<rparr>"
  have sS': "\<forall>c \<in> set (colors m). \<exists>E. sensor_probabilities h c = Some E \<and>
      mat (count_positions m) (count_positions m) E"
    using sS unfolding n_def by blast
  have c1: "compute_sensor_values h (fst p) (snd p) = Inr h1"
    unfolding h1_def sp_def s_def ch_def
    by (rule compute_sensor_values_eq [OF wf p hm sS'])
  have th1: "transitions h1 = transitions h"
    by (simp add: h1_def)
  have "maze h1 = m" "mat (count_positions m) (count_positions m) (transitions h1)"
    using hm mT by (simp_all add: h1_def n_def)
  from compute_transition_matrix_eq [OF wf p this, unfolded th1, folded n_def s_def]
  obtain T' where c2: "compute_transition_matrix h1 (fst p) (snd p) = Inr (h1\<lparr>transitions := T'\<rparr>)"
    and mT': "mat n n T'"
    and eT'0: "\<forall>a < n. \<forall>b < n. T' ! a ! b =
                (if b = s then
                   (if a = s then Fin (stay_mass m p)
                    else if \<exists>q \<in> set (neighbours p). floor_at m q \<and> index_of m q = a
                      then Fin MOVE_PROBABILITY
                    else transitions h ! a ! b)
                 else transitions h ! a ! b)"
    by blast
  have eT': "T' ! a ! b =
                (if b = s then
                   (if a = s then Fin (stay_mass m p)
                    else if \<exists>q \<in> set (neighbours p). floor_at m q \<and> index_of m q = a
                      then Fin MOVE_PROBABILITY
                    else transitions h ! a ! b)
                 else transitions h ! a ! b)" if "a < n" "b < n" for a b
    using eT'0 that by blast
  define pd where "pd = upd (position_distribution h) s 0 (Fin (1 / real n))"
  define h' where "h' = h1\<lparr>transitions := T', position_distribution := pd\<rparr>"
  have c3: "setitem (position_distribution h) s 0 (Fin (1 / real n)) = Inr pd"
    using mP sn by (simp add: pd_def setitem_upd [where r = n and c = 1])
  have run: "visit h p = Inr h'"
    using p(2) c1 c2 c3 sn
    by (simp add: visit_def floor_at_def hm h1_def h'_def tp index_of_def [symmetric] s_def [symmetric])
  have "built m (ps @ [p]) h'"
    unfolding built_def n_def [symmetric]
  proof (intro conjI allI impI ballI)
    show "maze h' = m" "total_positions h' = n" "steps h' = []"
      by (simp_all add: h'_def h1_def hm tp st)
    show "mat n n (transitions h')"
      by (simp add: h'_def mT')
    show "mat n 1 (position_distribution h')"
      using mat_upd [OF mP] by (simp add: h'_def pd_def)
    show "transitions h' ! a ! b = Fin (trans_val m (ps @ [p]) a b)" if "a < n" "b < n" for a b
      using eT' [OF that] eT that vals(4) [of a]
      by (auto simp: h'_def vals(1) tcol_def s_def)
    show "position_distribution h' ! a ! 0 = Fin (init_val m (ps @ [p]) a)" if "a < n" for a
      using eP that nth_upd [OF mP that, of 0 s 0]
      by (simp add: h'_def pd_def vals(2))
    show "sensor_probabilities h' c = None" if "c \<notin> set (colors m)" for c
      using sN that by (simp add: h'_def h1_def sp_def)
    show "\<exists>E. sensor_probabilities h' c = Some E \<and> mat n n E \<and>
            (\<forall>a < n. \<forall>b < n. E ! a ! b = Fin (emit_val m (ps @ [p]) c a b))"
      if c: "c \<in> set (colors m)" for c
    proof -
      from sS c obtain E where E: "sensor_probabilities h c = Some E" "mat n n E"
        "\<forall>a < n. \<forall>b < n. E ! a ! b = Fin (emit_val m ps c a b)"
        by blast
      show ?thesis
        using E c
        by (intro exI [of _ "upd E s s (Fin (sensor_val m ch c))"])
          (simp add: h'_def h1_def sp_def mat_upd vals(3) nth_upd [where r = n and c = n])
    qed
  qed
  with run show ?thesis by blast
qed

lemma built_step:
  assumes "wf_maze m" "p \<in> set (cells m)" "p \<notin> set ps" "set ps \<subseteq> set (cells m)" "built m ps h"
  shows "\<exists>h'. visit h p = Inr h' \<and> built m (ps @ [p]) h'"
proof (cases "floor_at m p")
  case True
  with assms show ?thesis by (intro built_floor)
next
  case False
  from assms(5) have "maze h = m"
    by (simp add: built_def)
  with False assms(5) have "visit h p = Inr h" "built m (ps @ [p]) h"
    by (simp_all add: visit_wall built_wall)
  then show ?thesis by blast
qed

lemma visit_all_built:
  assumes "wf_maze m"
  shows "distinct (ps @ qs) \<Longrightarrow> set (ps @ qs) \<subseteq> set (cells m) \<Longrightarrow> built m ps h \<Longrightarrow>
         \<exists>h'. visit_all h qs = Inr h' \<and> built m (ps @ qs) h'"
proof (induction qs arbitrary: ps h)
  case Nil
  then show ?case by simp
next
  case (Cons q qs)
  from Cons.prems have "q \<in> set (cells m)" "q \<notin> set ps" "set ps \<subseteq> set (cells m)"
    by auto
  from built_step [OF assms this Cons.prems(3)]
  obtain h1 where h1: "visit h q = Inr h1" "built m (ps @ [q]) h1"
    by blast
  from Cons.prems have "distinct ((ps @ [q]) @ qs)" "set ((ps @ [q]) @ qs) \<subseteq> set (cells m)"
    by auto
  from Cons.IH [OF this h1(2)] h1(1) show ?case
    by simp
qed

lemma init_sensors_eq:
  "n \<noteq> 0 \<Longrightarrow>
   init_sensors n cs sp = Inr (\<lambda>c. if c \<in> set cs then Some (np_zeros n n) else sp c)"
proof (induction cs arbitrary: sp)
  case Nil
  then show ?case by simp
next
  case (Cons c cs)
  then show ?case
    by (auto simp: Matrix_def fun_eq_iff)
qed

lemma cells_nonempty: "cells m \<noteq> [] \<Longrightarrow> width m \<noteq> 0 \<and> height m \<noteq> 0"
  by (auto simp: cells_def)

lemma HMM_built:
  assumes wf: "wf_maze m" and ne: "floor_cells m \<noteq> []"
  shows "\<exists>h. HMM m = Inr h \<and> built m (cells m) h"
proof -
  define n where "n = count_positions m"
  have n0: "n \<noteq> 0"
    using wf_mazeD(3) [OF wf] ne by (simp add: n_def)
  have "cells m \<noteq> []"
    using ne by (auto simp: floor_cells_def)
  then have wh: "width m \<noteq> 0" "height m \<noteq> 0"
    using cells_nonempty by blast+
  define sp :: "char \<rightharpoonup> matrix" where
    "sp = (\<lambda>c. if c \<in> set (colors m) then Some (np_zeros n n) else None)"
  define h0 where "h0 = \<lparr>maze = m, total_positions = n, sensor_probabilities = sp,
    transitions = np_zeros n n, position_distribution = np_zeros n 1, steps = []\<rparr>"
  have run: "HMM m = visit_all h0 (cells m)"
    using n0 wh
    by (simp add: HMM_def initialize_probabilities_def init_sensors_eq Matrix_def
        n_def [symmetric] sp_def [symmetric] h0_def)
  have b0: "built m [] h0"
    unfolding built_def n_def [symmetric]
    by (simp add: h0_def sp_def mat_np_zeros nth_np_zeros trans_val_def init_val_def
        emit_val_def cell_at_def)
  from visit_all_built [OF wf, of "[]" "cells m" h0] b0 distinct_cells
  show ?thesis
    by (simp add: run)
qed

lemma cell_at_cells:
  assumes "wf_maze m" "p \<in> set (cells m)" "floor_at m p"
  shows "cell_at m (cells m) (index_of m p) = Some p"
proof (cases "cell_at m (cells m) (index_of m p)")
  case None
  then have "\<not> (\<exists>x \<in> set (cells m). floor_at m x \<and> index_of m x = index_of m p)"
    by (auto simp add: cell_at_def find_None_iff)
  with assms(2,3) show ?thesis
    by blast
next
  case (Some q)
  from cell_at_SomeD [OF Some] assms have "q = p"
    by (intro wf_index_inj [of m q p]) auto
  with Some show ?thesis by simp
qed

lemma index_onto:
  assumes wf: "wf_maze m" and a: "a < count_positions m"
  shows "\<exists>p \<in> set (floor_cells m). index_of m p = a"
proof -
  have d: "distinct (map (index_of m) (floor_cells m))"
    by (rule wf_mazeD(1) [OF wf])
  have "card (index_of m ` set (floor_cells m)) = length (floor_cells m)"
    using distinct_card [OF d] by simp
  then have c: "card (index_of m ` set (floor_cells m)) = count_positions m"
    by (simp add: wf_mazeD(3) [OF wf])
  have sub: "index_of m ` set (floor_cells m) \<subseteq> {..<count_positions m}"
    using wf_mazeD(2) [OF wf] by auto
  have "index_of m ` set (floor_cells m) = {..<count_positions m}"
    by (rule card_subset_eq [OF _ sub]) (simp_all add: c)
  then have "a \<in> index_of m ` set (floor_cells m)"
    using a by blast
  then show ?thesis by blast
qed

lemma neighbours_facts: "distinct (neighbours p)" "p \<notin> set (neighbours p)" "length (neighbours p) = 4"
  by (simp_all add: neighbours_def prod_eq_iff)

lemma tcol_sum:
  assumes wf: "wf_maze m" and p: "p \<in> set (cells m)" "floor_at m p"
  shows "(\<Sum>a < count_positions m. tcol m p a) = 1"
proof -
  define n where "n = count_positions m"
  define s where "s = index_of m p"
  define F where "F = filter (floor_at m) (neighbours p)"
  define I where "I = index_of m ` set F"
  have Fc: "q \<in> set (cells m) \<and> floor_at m q \<and> q \<noteq> p" if "q \<in> set F" for q
    using that wf_neighbour [OF wf p(1), of q] neighbours_facts(2) [of p]
    by (auto simp: F_def)
  have inj: "inj_on (index_of m) (set F)"
    by (rule inj_onI) (use Fc wf_index_inj [OF wf] in blast)
  have cardI: "card I = length F"
    unfolding I_def
    using card_image [OF inj] distinct_card [of F] neighbours_facts(1) [of p]
    by (simp add: F_def)
  have sI: "s \<notin> I"
    using Fc wf_index_inj [OF wf p] unfolding I_def s_def by blast
  have In: "I \<subseteq> {..<n}"
    using Fc wf_index_lt [OF wf] unfolding I_def n_def by blast
  have sn: "s < n"
    using wf_index_lt [OF wf p] by (simp add: s_def n_def)
  have ex: "(\<exists>q \<in> set (neighbours p). floor_at m q \<and> index_of m q = a) \<longleftrightarrow> a \<in> I" for a
    by (auto simp: I_def F_def)
  have "(\<Sum>a < n. tcol m p a) =
        (\<Sum>a < n. (if a = s then stay_mass m p else 0) + (if a \<in> I then MOVE_PROBABILITY else 0))"
    using sI by (intro sum.cong) (auto simp: tcol_def ex s_def)
  also have "\<dots> = stay_mass m p + MOVE_PROBABILITY * real (card I)"
    using sn In by (simp add: sum.distrib sum.If_cases Int_absorb1)
  also have "\<dots> = MOVE_PROBABILITY * real (length (filter (\<lambda>q. \<not> floor_at m q) (neighbours p))
        + length (filter (floor_at m) (neighbours p)))"
    by (simp add: stay_mass_def cardI F_def algebra_simps)
  also have "\<dots> = 1"
    by (simp add: sum_length_filter_compl [of "floor_at m" "neighbours p", simplified add.commute]
        neighbours_facts(3) MOVE_PROBABILITY_def add.commute)
  finally show ?thesis
    by (simp add: n_def)
qed

lemma column_of_mat:
  assumes "mat n n T" "s < n"
  shows "map (\<lambda>row. row ! s) T = map (\<lambda>a. T ! a ! s) [0..<n]"
  using assms by (auto simp: mat_def list_eq_iff_nth_eq)

lemma cols_mat: "mat r c M \<Longrightarrow> r \<noteq> 0 \<Longrightarrow> cols M = c"
  by (cases M) (auto simp: mat_def cols_def)

lemma sum_list_upt: "sum_list (map f [0..<n]) = (\<Sum>a < n. f a)"
  by (simp add: interv_sum_list_conv_sum_set_nat atLeast0LessThan)

subsection \<open>The transition matrix\<close>

lemma builtD:
  assumes "built m ps h"
  shows "maze h = m" and "total_positions h = count_positions m" and "steps h = []"
    and "mat (count_positions m) (count_positions m) (transitions h)"
    and "mat (count_positions m) 1 (position_distribution h)"
    and "\<And>a b. a < count_positions m \<Longrightarrow> b < count_positions m \<Longrightarrow>
           transitions h ! a ! b = Fin (trans_val m ps a b)"
    and "\<And>a. a < count_positions m \<Longrightarrow>
           position_distribution h ! a ! 0 = Fin (init_val m ps a)"
    and "\<And>c. c \<notin> set (colors m) \<Longrightarrow> sensor_probabilities h c = None"
    and "\<And>c. c \<in> set (colors m) \<Longrightarrow>
           \<exists>E. sensor_probabilities h c = Some E \<and>
             mat (count_positions m) (count_positions m) E \<and>
             (\<forall>a < count_positions m. \<forall>b < count_positions m.
                E ! a ! b = Fin (emit_val m ps c a b))"
  using assms unfolding built_def by blast+

lemma built_column:
  assumes wf: "wf_maze m" and b: "built m (cells m) h" and p: "p \<in> set (floor_cells m)"
  shows "col_sums (transitions h) ! index_of m p = Fin 1"
proof -
  define n where "n = count_positions m"
  define s where "s = index_of m p"
  from p have pc: "p \<in> set (cells m)" "floor_at m p"
    by (simp_all add: floor_cells_iff)
  have sn: "s < n"
    using wf_index_lt [OF wf pc] by (simp add: s_def n_def)
  from b have mT: "mat n n (transitions h)"
    and eT: "\<forall>a < n. \<forall>b < n. transitions h ! a ! b = Fin (trans_val m (cells m) a b)"
    unfolding built_def n_def by simp_all
  have tv: "trans_val m (cells m) a s = tcol m p a" for a
    by (simp add: trans_val_def s_def cell_at_cells [OF wf pc])
  have "map (\<lambda>row. row ! s) (transitions h) = map (\<lambda>a. transitions h ! a ! s) [0..<n]"
    by (rule column_of_mat [OF mT sn])
  also have "\<dots> = map Fin (map (tcol m p) [0..<n])"
    using eT sn by (simp add: tv)
  finally have "fsum (map (\<lambda>row. row ! s) (transitions h)) = Fin (\<Sum>a < n. tcol m p a)"
    by (simp only: fsum_Fin sum_list_upt)
  then have "fsum (map (\<lambda>row. row ! s) (transitions h)) = Fin 1"
    using tcol_sum [OF wf pc] by (simp add: n_def)
  moreover have "cols (transitions h) = n"
    using cols_mat [OF mT] sn by simp
  ultimately show ?thesis
    using sn by (simp add: col_sums_def s_def)
qed

lemma built_column_entries:
  assumes wf: "wf_maze m" and b: "built m (cells m) h" and p: "p \<in> set (floor_cells m)"
  shows "transitions h ! index_of m p ! index_of m p =
           Fin (real (length (filter (\<lambda>q. \<not> floor_at m q) (neighbours p))) / 4)"
    and "\<forall>q \<in> set (neighbours p). floor_at m q \<longrightarrow>
           transitions h ! index_of m q ! index_of m p = Fin (1 / 4)"
proof -
  from p have pc: "p \<in> set (cells m)" "floor_at m p"
    by (simp_all add: floor_cells_iff)
  have sn: "index_of m p < count_positions m"
    by (rule wf_index_lt [OF wf pc])
  have tv: "trans_val m (cells m) a (index_of m p) = tcol m p a" for a
    by (simp add: trans_val_def cell_at_cells [OF wf pc])
  show "transitions h ! index_of m p ! index_of m p =
      Fin (real (length (filter (\<lambda>q. \<not> floor_at m q) (neighbours p))) / 4)"
    using builtD(6) [OF b sn sn]
    by (simp add: tv tcol_def stay_mass_def MOVE_PROBABILITY_def)
  show "\<forall>q \<in> set (neighbours p). floor_at m q \<longrightarrow>
      transitions h ! index_of m q ! index_of m p = Fin (1 / 4)"
  proof (intro ballI impI)
    fix q assume q: "q \<in> set (neighbours p)" "floor_at m q"
    have qc: "q \<in> set (cells m)"
      by (rule wf_neighbour [OF wf pc(1) q])
    have qn: "index_of m q < count_positions m"
      by (rule wf_index_lt [OF wf qc q(2)])
    have "q \<noteq> p"
      using q(1) neighbours_facts(2) [of p] by auto
    then have ne: "index_of m q \<noteq> index_of m p"
      using wf_index_inj [OF wf qc q(2) pc] by blast
    have "tcol m p (index_of m q) = 1 / 4"
      using q ne by (auto simp: tcol_def MOVE_PROBABILITY_def)
    then show "transitions h ! index_of m q ! index_of m p = Fin (1 / 4)"
      using builtD(6) [OF b qn sn] by (simp add: tv)
  qed
qed

text \<open>
  C1. For a grid with at least one traversable cell the constructor succeeds, and for
  every traversable cell \<open>p\<close> with state \<open>s = index p\<close> the column \<open>s\<close> of the transition
  matrix sums to exactly 1: it holds \<open>1/4\<close> at the state of each traversable neighbour
  of \<open>p\<close>, and at \<open>s\<close> itself \<open>1/4\<close> for each of the four neighbours that is a wall or off
  the grid.
\<close>

theorem transition_column_sums_to_one:
  assumes "wf_maze m" and "floor_cells m \<noteq> []"
  shows "\<exists>h. HMM m = Inr h \<and>
           (\<forall>p \<in> set (floor_cells m).
              col_sums (transitions h) ! index_of m p = Fin 1 \<and>
              transitions h ! index_of m p ! index_of m p =
                Fin (real (length (filter (\<lambda>q. \<not> floor_at m q) (neighbours p))) / 4) \<and>
              (\<forall>q \<in> set (neighbours p). floor_at m q \<longrightarrow>
                 transitions h ! index_of m q ! index_of m p = Fin (1 / 4)))"
proof -
  from HMM_built [OF assms] obtain h where h: "HMM m = Inr h" "built m (cells m) h"
    by blast
  show ?thesis
    using h(1) built_column [OF assms(1) h(2)] built_column_entries [OF assms(1) h(2)]
    by (intro exI [of _ h]) simp
qed

lemma wf_grid2: "wf_maze grid2"
  by (simp add: wf_maze_def grid2_def floor_cells_def cells_def floor_at_def is_floor_def
      index_of_def neighbours_def upt_rec [of _ 2] upt_rec [of _ "Suc 0"])

lemma floor_cells_grid2: "floor_cells grid2 = [(0, 0), (0, 1), (1, 1)]"
  by (simp add: grid2_def floor_cells_def cells_def floor_at_def is_floor_def
      upt_rec [of _ 2] upt_rec [of _ "Suc 0"])

theorem transition_column_sums_to_one_witness:
  "wf_maze grid2 \<and> floor_cells grid2 \<noteq> [] \<and>
   (\<exists>h. HMM grid2 = Inr h \<and>
      (\<forall>p \<in> set (floor_cells grid2).
         col_sums (transitions h) ! index_of grid2 p = Fin 1 \<and>
         transitions h ! index_of grid2 p ! index_of grid2 p =
           Fin (real (length (filter (\<lambda>q. \<not> floor_at grid2 q) (neighbours p))) / 4) \<and>
         (\<forall>q \<in> set (neighbours p). floor_at grid2 q \<longrightarrow>
            transitions h ! index_of grid2 q ! index_of grid2 p = Fin (1 / 4))))"
  using transition_column_sums_to_one [OF wf_grid2] floor_cells_grid2 wf_grid2 by simp

subsection \<open>The concrete grid\<close>

lemma upt_0_1: "[0..<1] = [0]" by (simp add: upt_rec)
lemma upt_0_2: "[0..<2] = [0, 1]" by (simp add: upt_rec)
lemma upt_0_3: "[0..<3] = [0, 1, 2]" by (simp add: upt_rec)
lemma upt_1_2: "[1..<2] = [1]" by (simp add: upt_rec)
lemma upt_1_3: "[1..<3] = [1, 2]" by (simp add: upt_rec)
lemma upt_S0_3: "[Suc 0..<3] = [1, 2]" by (simp add: upt_rec)

lemma cells_grid2: "cells grid2 = [(0, 0), (0, 1), (1, 0), (1, 1)]"
  by (simp add: cells_def grid2_def upt_0_2)

lemma mat33: "mat 3 3 M \<Longrightarrow> M = [[M ! 0 ! 0, M ! 0 ! 1, M ! 0 ! 2], [M ! 1 ! 0, M ! 1 ! 1, M ! 1 ! 2], [M ! 2 ! 0, M ! 2 ! 1, M ! 2 ! 2]]"
  by (auto simp: mat_def list_eq_iff_nth_eq less_Suc_eq numeral_3_eq_3 numeral_2_eq_2 nth_Cons')

lemma mat31: "mat 3 1 M \<Longrightarrow> M = [[M ! 0 ! 0], [M ! 1 ! 0], [M ! 2 ! 0]]"
  by (auto simp: mat_def list_eq_iff_nth_eq less_Suc_eq numeral_3_eq_3 numeral_2_eq_2 nth_Cons')

lemma floor_grid2:
  "floor_at grid2 (0, 0)" "floor_at grid2 (0, 1)" "\<not> floor_at grid2 (1, 0)" "floor_at grid2 (1, 1)"
  by (simp_all add: floor_at_def grid2_def is_floor_def)

lemma index_grid2:
  "index_of grid2 (0, 0) = 0" "index_of grid2 (0, 1) = 1" "index_of grid2 (1, 1) = 2"
  by (simp_all add: index_of_def grid2_def)

lemma char_grid2:
  "get_char grid2 0 0 = Some (CHR ''r'')" "get_char grid2 0 1 = Some (CHR ''g'')"
  "get_char grid2 1 1 = Some (CHR ''r'')"
  by (simp_all add: grid2_def)

lemma consts_grid2:
  "count_positions grid2 = 3" "colors grid2 = ''rg''" "color_count grid2 = 2"
  by (simp_all add: grid2_def)

lemma cell_at_grid2:
  "cell_at grid2 (cells grid2) 0 = Some (0, 0)"
  "cell_at grid2 (cells grid2) (Suc 0) = Some (0, 1)"
  "cell_at grid2 (cells grid2) 2 = Some (1, 1)"
  by (simp_all add: cell_at_def cells_grid2 floor_grid2 index_grid2)

lemmas tcol_eval = tcol_def stay_mass_def neighbours_def floor_at_def index_of_def
  grid2_def is_floor_def MOVE_PROBABILITY_def

lemma tcol_grid2:
  "tcol grid2 (0, 0) 0 = 3 / 4" "tcol grid2 (0, 0) (Suc 0) = 1 / 4" "tcol grid2 (0, 0) 2 = 0"
  "tcol grid2 (0, 1) 0 = 1 / 4" "tcol grid2 (0, 1) (Suc 0) = 1 / 2" "tcol grid2 (0, 1) 2 = 1 / 4"
  "tcol grid2 (1, 1) 0 = 0" "tcol grid2 (1, 1) (Suc 0) = 1 / 4" "tcol grid2 (1, 1) 2 = 3 / 4"
  by (simp_all add: tcol_eval)

lemma trans_val_grid2:
  "trans_val grid2 (cells grid2) 0 0 = 3 / 4" "trans_val grid2 (cells grid2) 0 (Suc 0) = 1 / 4"
  "trans_val grid2 (cells grid2) 0 2 = 0"
  "trans_val grid2 (cells grid2) (Suc 0) 0 = 1 / 4" "trans_val grid2 (cells grid2) (Suc 0) (Suc 0) = 1 / 2"
  "trans_val grid2 (cells grid2) (Suc 0) 2 = 1 / 4"
  "trans_val grid2 (cells grid2) 2 0 = 0" "trans_val grid2 (cells grid2) 2 (Suc 0) = 1 / 4"
  "trans_val grid2 (cells grid2) 2 2 = 3 / 4"
  by (simp_all add: trans_val_def cell_at_grid2 tcol_grid2)

lemma init_val_grid2:
  "init_val grid2 (cells grid2) 0 = 1 / 3" "init_val grid2 (cells grid2) (Suc 0) = 1 / 3"
  "init_val grid2 (cells grid2) 2 = 1 / 3"
  by (simp_all add: init_val_def cell_at_grid2 consts_grid2)

lemma emit_val_grid2:
  "emit_val grid2 (cells grid2) c a b =
     (if a = b then
        (if a = 0 then sensor_val grid2 (CHR ''r'') c
         else if a = Suc 0 then sensor_val grid2 (CHR ''g'') c
         else if a = 2 then sensor_val grid2 (CHR ''r'') c
         else emit_val grid2 (cells grid2) c a a)
      else 0)"
  by (simp add: emit_val_def cell_at_grid2 char_grid2)

lemma sensor_val_grid2:
  "sensor_val grid2 (CHR ''r'') (CHR ''r'') = 22 / 25" "sensor_val grid2 (CHR ''r'') (CHR ''g'') = 3 / 25"
  "sensor_val grid2 (CHR ''g'') (CHR ''r'') = 3 / 25" "sensor_val grid2 (CHR ''g'') (CHR ''g'') = 22 / 25"
  by (simp_all add: sensor_val_def CORRECT_COLOR_def WRONG_COLOR_def consts_grid2)

lemma HMM_grid2: "HMM grid2 = Inr grid2_engine"
proof -
  from HMM_built [OF wf_grid2] obtain h where h: "HMM grid2 = Inr h" "built grid2 (cells grid2) h"
    by (auto simp: floor_cells_grid2)
  have cp: "count_positions grid2 = 3" "colors grid2 = ''rg''"
    by (simp_all add: grid2_def)
  note b = builtD [OF h(2), unfolded cp]
  note f = b(1-3) and mT = b(4) and mP = b(5) and eT = b(6) and eP = b(7) and sN = b(8)
    and sS = b(9)
  have T: "transitions h = transitions grid2_engine"
    by (subst mat33 [OF mT]) (simp add: eT grid2_engine_def trans_val_grid2)
  have P: "position_distribution h = position_distribution grid2_engine"
    by (subst mat31 [OF mP]) (simp add: eP grid2_engine_def init_val_grid2)
  have S: "sensor_probabilities h c = sensor_probabilities grid2_engine c" for c
  proof (cases "c \<in> set ''rg''")
    case False
    then show ?thesis 
      using sN [of c] by (simp add: grid2_engine_def)
  next
    case True
    from sS [OF True] obtain E where E: "sensor_probabilities h c = Some E" "mat 3 3 E"
      "\<forall>a < 3. \<forall>b < 3. E ! a ! b = Fin (emit_val grid2 (cells grid2) c a b)"
      by blast
    from True have "c = CHR ''r'' \<or> c = CHR ''g''" by auto
    then show ?thesis
      unfolding E(1)
      by (subst mat33 [OF E(2)]) (auto simp: E(3) grid2_engine_def emit_val_grid2 sensor_val_grid2)
  qed
  have "h = grid2_engine"
    by (rule hmm.equality) (use f T P S in \<open>auto simp: grid2_engine_def\<close>)
  with h(1) show ?thesis by simp
qed

lemma list_update_numeral: "(x # xs)[numeral k := y] = x # xs[pred_numeral k := y]"
  by (simp add: numeral_eq_Suc)

lemma replicate_num: "replicate (numeral k) x = x # replicate (pred_numeral k) x"
  by (simp add: numeral_eq_Suc)

lemmas run_simps = replicate_num getitem_def setitem_def zeros_def np_zeros_def copy_def normalize_m_def
  col_sums_def cols_def rows_def fsum_def upt_0_1 upt_0_2 upt_0_3 upt_1_2 upt_1_3 upt_S0_3
  list_update_numeral

lemma viterbi_init_grid2:
  "viterbi_init grid2_engine ''rgr'' =
     Inr [[Fin (1 / 4), Fin (1 / 6), Fin (1 / 4)], [Fin 0, Fin 0, Fin 0], [Fin 0, Fin 0, Fin 0]]"
  by (simp add: viterbi_init_def viterbi_first_def grid2_engine_def run_simps)

lemma viterbi_tables_grid2:
  "viterbi_tables grid2_engine ''rgr'' =
     Inr ([[Fin (720000 / 840823), Fin (1250 / 1833), Fin (16600 / 19293)],
           [Fin (64800 / 840823), Fin (550 / 1833), Fin (498 / 6431)],
           [Fin (56023 / 840823), Fin (11 / 611), Fin (242 / 4425)]],
          [[Fin 0, Fin 0, Fin 0], [Fin 0, Fin 1, Fin 2], [Fin 1, Fin 1, Fin 1]])"
  unfolding viterbi_tables_def viterbi_init_grid2
  by (simp add: viterbi_step_def viterbi_curr_def viterbi_prev_def viterbi_emit_def
      grid2_engine_def run_simps)

lemma lower_char_evals:
  "lower_char (CHR ''R'') = CHR ''r''" "lower_char (CHR ''G'') = CHR ''g''"
  "lower_char (CHR ''r'') = CHR ''r''" "lower_char (CHR ''g'') = CHR ''g''"
  "lower_char (CHR ''x'') = CHR ''x''" "lower_char (CHR ''X'') = CHR ''x''"
  by (simp_all add: lower_char_def char_of_def bit_Suc_0_iff)

lemma forward_grid2:
  "forward grid2_engine ''RG'' =
     (None, grid2_engine\<lparr>steps :=
        [[[Fin (1 / 3)], [Fin (1 / 3)], [Fin (1 / 3)]],
         [[Fin (22 / 47)], [Fin (3 / 47)], [Fin (22 / 47)]],
         [[Fin (207 / 1514)], [Fin (550 / 757)], [Fin (207 / 1514)]]]\<rparr>)"
  by (simp add: forward_def Let_def lower_def lower_char_evals grid2_def forward_update_def mul_def np_dot_def
      transpose_m_def grid2_engine_def run_simps)

lemma backward_grid2:
  "backward (grid2_engine\<lparr>steps :=
        [[[Fin (1 / 3)], [Fin (1 / 3)], [Fin (1 / 3)]],
         [[Fin (22 / 47)], [Fin (3 / 47)], [Fin (22 / 47)]],
         [[Fin (207 / 1514)], [Fin (550 / 757)], [Fin (207 / 1514)]]]\<rparr>) ''XG'' =
     (Some KeyError, grid2_engine\<lparr>steps :=
        [[[Fin (1 / 3)], [Fin (1 / 3)], [Fin (1 / 3)]],
         [[Fin (341 / 757)], [Fin (75 / 757)], [Fin (341 / 757)]],
         [[Fin (207 / 1514)], [Fin (550 / 757)], [Fin (207 / 1514)]]]\<rparr>)"
  by (simp add: backward_def Let_def lower_def lower_char_evals grid2_def mul_def np_dot_def multiply_def
      broadcast_dim_def ones_def numeral_2_eq_2 grid2_engine_def run_simps)

subsection \<open>The emission matrices, the identity constructor and unknown readings\<close>

lemma HMM_builtD:
  assumes wf: "wf_maze m" and h: "HMM m = Inr h"
  shows "built m (cells m) h"
proof -
  have "count_positions m \<noteq> 0"
    using h by (auto simp: HMM_def split: if_splits)
  then have "floor_cells m \<noteq> []"
    using wf_mazeD(3) [OF wf] by simp
  from HMM_built [OF wf this] h show ?thesis
    by auto
qed

lemma built_emission:
  assumes wf: "wf_maze m" and b: "built m (cells m) h" and c: "c \<in> set (colors m)"
  shows "\<exists>E. sensor_probabilities h c = Some E \<and>
           (\<forall>p \<in> set (floor_cells m).
              E ! index_of m p ! index_of m p =
                (if get_char m (fst p) (snd p) = Some c then Fin (88 / 100)
                 else Fin ((12 / 100) / (real (color_count m) - 1)))) \<and>
           (\<forall>a < count_positions m. \<forall>b < count_positions m. a \<noteq> b \<longrightarrow> E ! a ! b = Fin 0)"
proof -
  from builtD(9) [OF b c] obtain E where E: "sensor_probabilities h c = Some E"
    and e: "\<forall>a < count_positions m. \<forall>b < count_positions m.
              E ! a ! b = Fin (emit_val m (cells m) c a b)"
    by blast
  have diag: "E ! index_of m p ! index_of m p =
       (if get_char m (fst p) (snd p) = Some c then Fin (88 / 100)
        else Fin ((12 / 100) / (real (color_count m) - 1)))"
    if "p \<in> set (floor_cells m)" for p
  proof -
    from that have pc: "p \<in> set (cells m)" "floor_at m p"
      by (simp_all add: floor_cells_iff)
    from wf_color [OF wf pc] obtain ch where ch: "get_char m (fst p) (snd p) = Some ch"
      by blast
    have "emit_val m (cells m) c (index_of m p) (index_of m p) = sensor_val m ch c"
      by (simp add: emit_val_def cell_at_cells [OF wf pc] ch)
    then show ?thesis
      using e wf_index_lt [OF wf pc] ch
      by (auto simp: sensor_val_def CORRECT_COLOR_def WRONG_COLOR_def)
  qed
  have off: "E ! a ! b = Fin 0" if "a < count_positions m" "b < count_positions m" "a \<noteq> b" for a b
    using e that by (simp add: emit_val_def)
  from E diag off show ?thesis
    by blast
qed

text \<open>
  C3. For a grid with at least one traversable cell the constructor succeeds, and for
  every color \<open>c\<close> of the alphabet the matrix \<open>sensor_probabilities[c]\<close> has \<open>0.88\<close> on the
  diagonal at a state whose cell has color \<open>c\<close>, \<open>0.12 / (color_count - 1)\<close> on the
  diagonal at every other state, and 0 off the diagonal.
\<close>

theorem emission_entries:
  assumes "wf_maze m" and "floor_cells m \<noteq> []"
  shows "\<exists>h. HMM m = Inr h \<and>
           (\<forall>c \<in> set (colors m). \<exists>E. sensor_probabilities h c = Some E \<and>
              (\<forall>p \<in> set (floor_cells m).
                 E ! index_of m p ! index_of m p =
                   (if get_char m (fst p) (snd p) = Some c then Fin (88 / 100)
                    else Fin ((12 / 100) / (real (color_count m) - 1)))) \<and>
              (\<forall>a < count_positions m. \<forall>b < count_positions m.
                 a \<noteq> b \<longrightarrow> E ! a ! b = Fin 0))"
  using HMM_built [OF assms] built_emission [OF assms(1)] by blast

theorem emission_entries_witness:
  "wf_maze grid2 \<and> floor_cells grid2 \<noteq> [] \<and>
   (\<exists>h. HMM grid2 = Inr h \<and>
      (\<forall>c \<in> set (colors grid2). \<exists>E. sensor_probabilities h c = Some E \<and>
         (\<forall>p \<in> set (floor_cells grid2).
            E ! index_of grid2 p ! index_of grid2 p =
              (if get_char grid2 (fst p) (snd p) = Some c then Fin (88 / 100)
               else Fin ((12 / 100) / (real (color_count grid2) - 1)))) \<and>
         (\<forall>a < count_positions grid2. \<forall>b < count_positions grid2.
            a \<noteq> b \<longrightarrow> E ! a ! b = Fin 0)))"
  using emission_entries [of grid2] wf_grid2 floor_cells_grid2 by simp

text \<open>
  C9. \<open>Matrix.identity\<close> raises \<open>TypeError\<close> for every argument list, so there is no
  identity matrix to multiply by.
\<close>

theorem identity_raises: "identity dims = Inl TypeError"
  by (simp add: identity_def np_identity_def)

text \<open>
  C6. When the lower-cased form of some reading is not a color of the grid (the labels
  are read case-insensitively), \<open>forward\<close> raises \<open>ValueError\<close> and leaves every field
  of the engine, the stored steps included, as it was.
\<close>

theorem forward_unknown_observation:
  assumes "\<exists>reading \<in> set readings. lower_char reading \<notin> set (colors (maze h))"
  shows "forward h readings = (Some ValueError, h)"
  using assms by (auto simp: forward_def lower_def)

theorem forward_unknown_observation_witness:
  "(\<exists>reading \<in> set ''RX''. lower_char reading \<notin> set (colors (maze grid2_engine))) \<and>
   forward grid2_engine ''RX'' = (Some ValueError, grid2_engine)"
proof -
  have "\<exists>reading \<in> set ''RX''. lower_char reading \<notin> set (colors (maze grid2_engine))"
    by (simp add: lower_char_evals grid2_engine_def consts_grid2)
  with forward_unknown_observation [of "''RX''" grid2_engine] show ?thesis
    by blast
qed

subsection \<open>The first row of Viterbi's table\<close>

lemma viterbi_first_fold:
  assumes "mat n 1 (position_distribution h)" "mat n n (transitions h)"
  shows "mat k n delta \<Longrightarrow> 0 < k \<Longrightarrow> \<forall>pos \<in> set ps. pos < n \<Longrightarrow>
     \<exists>d. efold (viterbi_first h) ps delta = Inr d \<and> mat k n d \<and>
       (\<forall>s < n. d ! 0 ! s =
          (if s \<in> set ps
           then fmul (position_distribution h ! s ! 0) (transitions h ! s ! s)
           else delta ! 0 ! s))"
proof (induction ps arbitrary: delta)
  case Nil
  then show ?case by simp
next
  case (Cons pos ps)
  define v where "v = fmul (position_distribution h ! pos ! 0) (transitions h ! pos ! pos)"
  define d1 where "d1 = upd delta 0 pos v"
  from Cons.prems have pos: "pos < n" by simp
  have g1: "getitem (position_distribution h) pos 0 = Inr (position_distribution h ! pos ! 0)"
    using assms(1) pos by (simp add: getitem_def mat_def)
  have g2: "getitem (transitions h) pos pos = Inr (transitions h ! pos ! pos)"
    using assms(2) pos by (simp add: getitem_def mat_def)
  have first: "viterbi_first h pos delta = Inr d1"
    using setitem_upd [OF Cons.prems(1,2) pos]
    by (simp add: viterbi_first_def g1 g2 d1_def v_def)
  have m1: "mat k n d1"
    using Cons.prems(1) by (simp add: d1_def mat_upd)
  from Cons.IH [OF m1 Cons.prems(2)] Cons.prems(3)
  obtain d where d: "efold (viterbi_first h) ps d1 = Inr d" "mat k n d"
    "\<forall>s < n. d ! 0 ! s =
       (if s \<in> set ps then fmul (position_distribution h ! s ! 0) (transitions h ! s ! s)
        else d1 ! 0 ! s)"
    by auto
  have "d ! 0 ! s =
      (if s \<in> set (pos # ps)
       then fmul (position_distribution h ! s ! 0) (transitions h ! s ! s)
       else delta ! 0 ! s)" if "s < n" for s
    using d(3) that nth_upd [OF Cons.prems(1,2) that, of 0 pos v]
    by (auto simp: d1_def v_def)
  with first d(1,2) show ?case
    by simp
qed

text \<open>
  In \<open>viterbi\<close>, for a non-empty reading string, the first loop leaves in row 0 of
  \<open>delta\<close>, at every traversable state, the initial probability of the state times its
  self-transition entry; the emission matrices are not read. The stored steps play no
  part. For a single reading this is the table that \<open>viterbi\<close> ends with.
\<close>

lemma viterbi_initial_row:
  assumes "wf_maze m" and "HMM m = Inr h" and "readings \<noteq> []"
  shows "\<exists>delta. viterbi_init (h\<lparr>steps := ss\<rparr>) (lower readings) = Inr delta \<and>
           (\<forall>p \<in> set (floor_cells m).
              delta ! 0 ! index_of m p =
                fmul (position_distribution h ! index_of m p ! 0)
                     (transitions h ! index_of m p ! index_of m p)) \<and>
           (length readings = 1 \<longrightarrow>
              (\<exists>predecessors.
                 viterbi_tables (h\<lparr>steps := ss\<rparr>) (lower readings) = Inr (delta, predecessors)))"
proof -
  define n where "n = count_positions m"
  define k where "k = length (lower readings)"
  define h' where "h' = h\<lparr>steps := ss\<rparr>"
  note b = builtD [OF HMM_builtD [OF assms(1,2)], folded n_def]
  have k: "0 < k"
    using assms(3) by (simp add: k_def lower_def)
  have m0: "mat k n (zeros k n)"
    by (simp add: zeros_def mat_np_zeros)
  have mh: "mat n 1 (position_distribution h')" "mat n n (transitions h')"
    using b(4,5) by (simp_all add: h'_def)
  from viterbi_first_fold [OF mh m0 k, of "[0..<n]"]
  obtain d where d: "efold (viterbi_first h') [0..<n] (zeros k n) = Inr d"
    "\<forall>s < n. d ! 0 ! s =
       (if s \<in> set [0..<n]
        then fmul (position_distribution h' ! s ! 0) (transitions h' ! s ! s)
        else zeros k n ! 0 ! s)"
    by auto
  have run: "viterbi_init h' (lower readings) = Inr d"
    using d(1) b(2) by (simp add: viterbi_init_def h'_def k_def)
  have "d ! 0 ! index_of m p =
      fmul (position_distribution h ! index_of m p ! 0)
           (transitions h ! index_of m p ! index_of m p)"
    if "p \<in> set (floor_cells m)" for p
    using d(2) wf_mazeD(2) [OF assms(1) that] by (simp add: n_def h'_def)
  moreover have "\<exists>predecessors. viterbi_tables h' (lower readings) = Inr (d, predecessors)"
    if "length readings = 1"
    using that run by (simp add: viterbi_tables_def lower_def)
  ultimately show ?thesis
    using run unfolding h'_def by blast
qed

lemma viterbi_initial_row_single:
  "wf_maze grid2 \<and> HMM grid2 = Inr grid2_engine \<and> ''R'' \<noteq> [] \<and>
   (\<exists>delta. viterbi_init (grid2_engine\<lparr>steps := []\<rparr>) (lower ''R'') = Inr delta \<and>
      (\<forall>p \<in> set (floor_cells grid2).
         delta ! 0 ! index_of grid2 p =
           fmul (position_distribution grid2_engine ! index_of grid2 p ! 0)
                (transitions grid2_engine ! index_of grid2 p ! index_of grid2 p)) \<and>
      length ''R'' = 1 \<and>
      (\<exists>predecessors.
         viterbi_tables (grid2_engine\<lparr>steps := []\<rparr>) (lower ''R'') = Inr (delta, predecessors)))"
  using viterbi_initial_row [OF wf_grid2 HMM_grid2, of "''R''" "[]"] wf_grid2 HMM_grid2
  by simp


subsection \<open>Forward filtering\<close>

lemma mat_normalize: "mat r c M \<Longrightarrow> mat r c (normalize_m M)"
  by (simp add: mat_def normalize_m_def)

lemma mat_transpose:
  assumes "mat n n M" "n \<noteq> 0"
  shows "mat n n (transpose_m M)"
proof -
  have "cols M = n" by (rule cols_mat [OF assms])
  moreover have "length M = n" using assms(1) by (simp add: mat_def)
  ultimately show ?thesis
    by (simp add: transpose_m_def mat_def)
qed

lemma mul_vector:
  assumes "mat n n A" "mat n 1 d" "n \<noteq> 0"
  shows "\<exists>v. mul A d = Inr v \<and> mat n 1 v"
proof -
  have cA: "cols A = n" and cd: "cols d = 1"
    using cols_mat [OF assms(1,3)] cols_mat [OF assms(2,3)] by simp_all
  have rd: "rows d = n" and lA: "length A = n"
    using assms by (simp_all add: rows_def mat_def)
  have "cols A = rows d"
    by (simp only: cA rd)
  then have "mul A d = Inr (map (\<lambda>row. map (\<lambda>j. fsum (map (\<lambda>l. fmul (row ! l) (d ! l ! j))
      [0..<length row])) [0..<cols d]) A)"
    by (simp add: mul_def np_dot_def)
  moreover have "mat n 1 (map (\<lambda>row. map (\<lambda>j. fsum (map (\<lambda>l. fmul (row ! l) (d ! l ! j))
      [0..<length row])) [0..<cols d]) A)"
    unfolding mat_def cd using lA by simp
  ultimately show ?thesis
    by blast
qed

lemma forward_update_ok:
  assumes "mat n n (transitions h)" "sensor_probabilities h reading = Some E" "mat n n E"
    "mat n 1 d" "n \<noteq> 0"
  shows "\<exists>v. forward_update h reading d = Inr v \<and> mat n 1 v"
proof -
  from mul_vector [OF mat_transpose [OF assms(1,5)] assms(4,5)]
  obtain w where w: "mul (transpose_m (transitions h)) d = Inr w" "mat n 1 w"
    by blast
  from mul_vector [OF assms(3) w(2) assms(5)] obtain v where "mul E w = Inr v" "mat n 1 v"
    by blast
  with w(1) show ?thesis
    by (simp add: forward_update_def assms(2))
qed

lemma forward_update_steps [simp]: "forward_update (h\<lparr>steps := S\<rparr>) r d = forward_update h r d"
  by (simp add: forward_update_def split: option.splits)

lemma forward_loop_run:
  assumes "mat n n (transitions h)" "n \<noteq> 0"
  shows "\<forall>r \<in> set rs. \<exists>E. sensor_probabilities h r = Some E \<and> mat n n E \<Longrightarrow> mat n 1 d \<Longrightarrow>
     \<exists>L. forward_loop (h\<lparr>steps := S @ [d]\<rparr>) rs d = (None, h\<lparr>steps := S @ d # L\<rparr>) \<and>
       length L = length rs \<and>
       (\<forall>t < length rs. \<exists>v. forward_update h (rs ! t) ((d # L) ! t) = Inr v \<and>
          mat n 1 v \<and> L ! t = normalize_m v)"
proof (induction rs arbitrary: S d)
  case Nil
  then show ?case by simp
next
  case (Cons r rs)
  from Cons.prems(1) obtain E where E: "sensor_probabilities h r = Some E" "mat n n E"
    by auto
  from forward_update_ok [OF assms(1) E Cons.prems(2) assms(2)]
  obtain v where v: "forward_update h r d = Inr v" "mat n 1 v"
    by blast
  define nd where "nd = normalize_m v"
  have mnd: "mat n 1 nd"
    using v(2) by (simp add: nd_def mat_normalize)
  from Cons.prems(1) have "\<forall>r \<in> set rs. \<exists>E. sensor_probabilities h r = Some E \<and> mat n n E"
    by simp
  from Cons.IH [OF this mnd, of "S @ [d]"]
  obtain L where L: "forward_loop (h\<lparr>steps := (S @ [d]) @ [nd]\<rparr>) rs nd =
      (None, h\<lparr>steps := (S @ [d]) @ nd # L\<rparr>)" "length L = length rs"
    "\<forall>t < length rs. \<exists>v. forward_update h (rs ! t) ((nd # L) ! t) = Inr v \<and>
       mat n 1 v \<and> L ! t = normalize_m v"
    by blast
  have run: "forward_loop (h\<lparr>steps := S @ [d]\<rparr>) (r # rs) d = (None, h\<lparr>steps := S @ d # nd # L\<rparr>)"
    using L(1) v(1) by (simp add: nd_def)
  have each: "\<exists>w. forward_update h ((r # rs) ! t) ((d # nd # L) ! t) = Inr w \<and>
       mat n 1 w \<and> (nd # L) ! t = normalize_m w" if "t < length (r # rs)" for t
  proof (cases t)
    case 0
    then show ?thesis using v by (simp add: nd_def)
  next
    case (Suc t')
    with that L(3) show ?thesis by simp
  qed
  show ?case
    using run L(2) each by (intro exI [of _ "nd # L"]) simp
qed

lemma singleton_row: "length xs = 1 \<Longrightarrow> xs = [xs ! 0]"
  by (cases xs) simp_all

lemma built_uniform:
  assumes wf: "wf_maze m" and b: "built m (cells m) h"
  shows "position_distribution h =
     replicate (count_positions m) [Fin (1 / real (count_positions m))]"
proof -
  define n where "n = count_positions m"
  note bd = builtD [OF b, folded n_def]
  have row: "position_distribution h ! a = [Fin (1 / real n)]" if "a < n" for a
  proof -
    from index_onto [OF wf, of a] that obtain p where p: "p \<in> set (floor_cells m)"
      "index_of m p = a"
      by (auto simp: n_def)
    then have "cell_at m (cells m) a = Some p"
      using cell_at_cells [OF wf, of p] by (auto simp: floor_cells_iff)
    then have "position_distribution h ! a ! 0 = Fin (1 / real n)"
      using bd(7) [OF that] by (simp add: init_val_def n_def)
    moreover have "length (position_distribution h ! a) = 1"
      using bd(5) that by (simp add: mat_def)
    ultimately show ?thesis
      using singleton_row [of "position_distribution h ! a"] by simp
  qed
  have "length (position_distribution h) = n"
    using bd(5) by (simp add: mat_def)
  then show ?thesis
    unfolding n_def [symmetric] by (simp add: list_eq_iff_nth_eq row)
qed

lemma forward_valid:
  assumes wf: "wf_maze m" and h: "HMM m = Inr h"
    and valid: "\<forall>r \<in> set readings. lower_char r \<in> set (colors m)"
  shows "\<exists>L. forward (h\<lparr>steps := ss\<rparr>) readings =
             (None, h\<lparr>steps := position_distribution h # L\<rparr>) \<and>
           length L = length readings \<and>
           (\<forall>t < length readings.
              \<exists>v. forward_update h (lower readings ! t) ((position_distribution h # L) ! t) = Inr v \<and>
                mat (count_positions m) 1 v \<and> L ! t = normalize_m v)"
proof -
  define n where "n = count_positions m"
  note b = builtD [OF HMM_builtD [OF wf h], folded n_def]
  have n0: "n \<noteq> 0"
    using h by (auto simp: HMM_def n_def split: if_splits)
  have sens: "\<forall>r \<in> set (lower readings). \<exists>E. sensor_probabilities h r = Some E \<and> mat n n E"
  proof
    fix r assume "r \<in> set (lower readings)"
    then have "r \<in> set (colors m)"
      using valid by (auto simp: lower_def)
    from b(9) [OF this] show "\<exists>E. sensor_probabilities h r = Some E \<and> mat n n E"
      by blast
  qed
  from forward_loop_run [OF b(4) n0 sens b(5), of "[]"]
  obtain L where L: "forward_loop (h\<lparr>steps := [position_distribution h]\<rparr>) (lower readings)
       (position_distribution h) = (None, h\<lparr>steps := position_distribution h # L\<rparr>)"
    "length L = length (lower readings)"
    "\<forall>t < length (lower readings).
       \<exists>v. forward_update h (lower readings ! t) ((position_distribution h # L) ! t) = Inr v \<and>
         mat n 1 v \<and> L ! t = normalize_m v"
    by auto
  have "forward (h\<lparr>steps := ss\<rparr>) readings =
      forward_loop (h\<lparr>steps := [position_distribution h]\<rparr>) (lower readings) (position_distribution h)"
    using valid by (auto simp: forward_def Let_def copy_def lower_def b(1))
  with L show ?thesis
    by (intro exI [of _ L]) (simp add: lower_def n_def)
qed

lemma fadd_Fin_conv: "fadd a y = Fin z \<Longrightarrow> \<exists>b c. a = Fin b \<and> y = Fin c \<and> z = b + c"
  by (cases a; cases y) simp_all

lemma foldl_fadd_Fin:
  "foldl fadd a xs = Fin x \<Longrightarrow> \<exists>b ys. a = Fin b \<and> xs = map Fin ys \<and> x = b + sum_list ys"
proof (induction xs arbitrary: a)
  case Nil
  then show ?case by simp
next
  case (Cons y xs)
  from Cons.prems have "foldl fadd (fadd a y) xs = Fin x" by simp
  from Cons.IH [OF this] obtain b' ys where
    IH: "fadd a y = Fin b'" "xs = map Fin ys" "x = b' + sum_list ys"
    by blast
  from fadd_Fin_conv [OF IH(1)] obtain b c where "a = Fin b" "y = Fin c" "b' = b + c"
    by blast
  with IH(2,3) show ?case
    by (intro exI [of _ b] exI [of _ "c # ys"]) simp
qed

lemma fsum_Fin_conv: "fsum xs = Fin x \<Longrightarrow> \<exists>ys. xs = map Fin ys \<and> sum_list ys = x"
  using foldl_fadd_Fin [of "Fin 0" xs x] by (auto simp: fsum_def)

lemma sum_list_divide: "sum_list (map (\<lambda>y. y / x) ys) = sum_list ys / (x :: real)"
  by (induction ys) (simp_all add: add_divide_distrib)

lemma normalize_column_sum:
  assumes v: "mat n 1 v" "n \<noteq> 0" and s: "col_sums v = [Fin x]" "x \<noteq> 0"
  shows "col_sums (normalize_m v) = [Fin 1]"
proof -
  have cv: "cols v = 1"
    by (rule cols_mat [OF v])
  have cn: "cols (normalize_m v) = 1"
    by (rule cols_mat [OF mat_normalize [OF v(1)] v(2)])
  have rows1: "length row = 1" if "row \<in> set v" for row
    using that v(1) by (auto simp: mat_def in_set_conv_nth)
  from s(1) have tot: "fsum (map (\<lambda>row. row ! 0) v) = Fin x"
    by (simp add: col_sums_def cv)
  from fsum_Fin_conv [OF tot] obtain ys where ys: "map (\<lambda>row. row ! 0) v = map Fin ys"
    "sum_list ys = x"
    by blast
  have "map (\<lambda>row. row ! 0) (normalize_m v) = map (\<lambda>row. fdiv (row ! 0) (Fin x)) v"
    using rows1 s(1) by (simp add: normalize_m_def)
  also have "\<dots> = map (\<lambda>e. fdiv e (Fin x)) (map (\<lambda>row. row ! 0) v)"
    by simp
  also have "\<dots> = map Fin (map (\<lambda>y. y / x) ys)"
    unfolding ys(1) using s(2) by simp
  finally have "fsum (map (\<lambda>row. row ! 0) (normalize_m v)) = Fin (sum_list ys / x)"
    by (simp only: fsum_Fin sum_list_divide)
  then show ?thesis
    using ys(2) s(2) by (simp add: col_sums_def cn)
qed

text \<open>
  C4. When every reading is a color of the grid, \<open>forward\<close> returns normally with
  \<open>len(readings) + 1\<close> stored steps, whatever steps were stored before, and step 0 is the
  uniform distribution \<open>1 / total_positions\<close>; for the empty reading string the stored
  steps are that distribution alone.
\<close>

theorem forward_length_and_prior:
  assumes "wf_maze m" and "HMM m = Inr h"
    and "\<forall>r \<in> set readings. lower_char r \<in> set (colors m)"
  shows "\<exists>h'. forward (h\<lparr>steps := ss\<rparr>) readings = (None, h') \<and>
           length (steps h') = length readings + 1 \<and>
           steps h' ! 0 = replicate (count_positions m) [Fin (1 / real (count_positions m))] \<and>
           (readings = [] \<longrightarrow>
              steps h' = [replicate (count_positions m) [Fin (1 / real (count_positions m))]])"
proof -
  from forward_valid [OF assms, of ss] obtain L where
    L: "forward (h\<lparr>steps := ss\<rparr>) readings = (None, h\<lparr>steps := position_distribution h # L\<rparr>)"
    "length L = length readings"
    by blast
  have "position_distribution h =
      replicate (count_positions m) [Fin (1 / real (count_positions m))]"
    by (rule built_uniform [OF assms(1) HMM_builtD [OF assms(1,2)]])
  with L show ?thesis
    by (intro exI [of _ "h\<lparr>steps := position_distribution h # L\<rparr>"]) auto
qed

theorem forward_length_and_prior_witness:
  "wf_maze grid2 \<and> HMM grid2 = Inr grid2_engine \<and>
   lower_char (CHR ''R'') \<in> set (colors grid2) \<and> lower_char (CHR ''G'') \<in> set (colors grid2) \<and>
   (\<exists>h'. forward (grid2_engine\<lparr>steps := []\<rparr>) ''RG'' = (None, h') \<and>
      length (steps h') = length ''RG'' + 1 \<and>
      steps h' ! 0 = replicate (count_positions grid2) [Fin (1 / real (count_positions grid2))] \<and>
      (''RG'' = [] \<longrightarrow>
         steps h' = [replicate (count_positions grid2) [Fin (1 / real (count_positions grid2))]]))"
proof -
  have v: "\<forall>r \<in> set ''RG''. lower_char r \<in> set (colors grid2)"
    by (simp add: lower_char_evals consts_grid2)
  from forward_length_and_prior [OF wf_grid2 HMM_grid2 v, of "[]"] v wf_grid2 HMM_grid2
  show ?thesis
    by simp
qed

text \<open>
  C5. When every reading is a color of the grid, each stored step after step 0 is the
  normalised update \<open>sensor[reading] * (transitions.T * previous)\<close>, and whenever the
  entries of that update have a finite, nonzero sum, the stored step sums to 1 (exactly,
  with real entries; rounding is not modelled).
\<close>

theorem forward_steps_sum_to_one:
  assumes "wf_maze m" and "HMM m = Inr h"
    and "\<forall>r \<in> set readings. lower_char r \<in> set (colors m)"
    and "t < length readings"
  shows "\<exists>h' v. forward (h\<lparr>steps := ss\<rparr>) readings = (None, h') \<and>
           forward_update h (lower readings ! t) (steps h' ! t) = Inr v \<and>
           steps h' ! Suc t = normalize_m v \<and>
           (\<forall>x. col_sums v = [Fin x] \<and> x \<noteq> 0 \<longrightarrow> col_sums (steps h' ! Suc t) = [Fin 1])"
proof -
  from forward_valid [OF assms(1-3), of ss] obtain L where
    L: "forward (h\<lparr>steps := ss\<rparr>) readings = (None, h\<lparr>steps := position_distribution h # L\<rparr>)"
    "\<forall>t < length readings.
       \<exists>v. forward_update h (lower readings ! t) ((position_distribution h # L) ! t) = Inr v \<and>
         mat (count_positions m) 1 v \<and> L ! t = normalize_m v"
    by blast
  from L(2) assms(4) obtain v where
    v: "forward_update h (lower readings ! t) ((position_distribution h # L) ! t) = Inr v"
    "mat (count_positions m) 1 v" "L ! t = normalize_m v"
    by blast
  have n0: "count_positions m \<noteq> 0"
    using assms(2) by (auto simp: HMM_def split: if_splits)
  have "col_sums (normalize_m v) = [Fin 1]" if "col_sums v = [Fin x]" "x \<noteq> 0" for x
    by (rule normalize_column_sum [OF v(2) n0 that])
  with L(1) v(1,3) show ?thesis
    by (intro exI [of _ "h\<lparr>steps := position_distribution h # L\<rparr>"] exI [of _ v]) simp
qed

lemma forward_update_grid2:
  "forward_update grid2_engine (CHR ''r'') [[Fin (1 / 3)], [Fin (1 / 3)], [Fin (1 / 3)]] =
     Inr [[Fin (22 / 75)], [Fin (1 / 25)], [Fin (22 / 75)]]"
  by (simp add: forward_update_def mul_def np_dot_def transpose_m_def grid2_engine_def run_simps)

theorem forward_steps_sum_to_one_witness:
  "wf_maze grid2 \<and> HMM grid2 = Inr grid2_engine \<and>
   lower_char (CHR ''R'') \<in> set (colors grid2) \<and> lower_char (CHR ''G'') \<in> set (colors grid2) \<and>
   0 < length ''RG'' \<and>
   (\<exists>h' v. forward (grid2_engine\<lparr>steps := []\<rparr>) ''RG'' = (None, h') \<and>
      forward_update grid2_engine (lower ''RG'' ! 0) (steps h' ! 0) = Inr v \<and>
      steps h' ! Suc 0 = normalize_m v \<and>
      col_sums v = [Fin (47 / 75)] \<and> (47 / 75 :: real) \<noteq> 0 \<and>
      col_sums (steps h' ! Suc 0) = [Fin 1])"
proof -
  have valid: "\<forall>r \<in> set ''RG''. lower_char r \<in> set (colors grid2)"
    by (simp add: lower_char_evals consts_grid2)
  from forward_steps_sum_to_one [OF wf_grid2 HMM_grid2 valid, of 0 "[]"]
  obtain h' v where hv: "forward (grid2_engine\<lparr>steps := []\<rparr>) ''RG'' = (None, h')"
    "forward_update grid2_engine (lower ''RG'' ! 0) (steps h' ! 0) = Inr v"
    "steps h' ! Suc 0 = normalize_m v"
    "\<forall>x. col_sums v = [Fin x] \<and> x \<noteq> 0 \<longrightarrow> col_sums (steps h' ! Suc 0) = [Fin 1]"
    by auto
  have "grid2_engine\<lparr>steps := []\<rparr> = grid2_engine"
    by (simp add: grid2_engine_def)
  with hv(1) forward_grid2 have "steps h' ! 0 = [[Fin (1 / 3)], [Fin (1 / 3)], [Fin (1 / 3)]]"
    by auto
  with hv(2) forward_update_grid2 have v: "v = [[Fin (22 / 75)], [Fin (1 / 25)], [Fin (22 / 75)]]"
    by (simp add: lower_def lower_char_evals)
  have cs: "col_sums v = [Fin (47 / 75)]"
    unfolding v by (simp add: run_simps)
  with hv(4) [rule_format, of "47 / 75"] have "col_sums (steps h' ! Suc 0) = [Fin 1]"
    by simp
  with hv(1-3) cs valid wf_grid2 HMM_grid2 show ?thesis
    by simp
qed

subsection \<open>The stored steps across calls\<close>

lemma backward_loop_frame:
  "length (steps (snd (backward_loop h rs k v))) = length (steps h) \<and>
   (\<forall>i. i = 0 \<or> k < i \<longrightarrow> steps (snd (backward_loop h rs k v)) ! i = steps h ! i)"
proof (induction k arbitrary: h v)
  case 0
  then show ?case by simp
next
  case (Suc k)
  show ?case
  proof (cases "multiply (steps h ! Suc k) v")
    case (Inl e)
    then show ?thesis by simp
  next
    case (Inr s)
    define h1 where "h1 = h\<lparr>steps := list_update (steps h) (Suc k) (normalize_m s)\<rparr>"
    have h1: "length (steps h1) = length (steps h)"
      "\<And>i. i \<noteq> Suc k \<Longrightarrow> steps h1 ! i = steps h ! i"
      by (simp_all add: h1_def)
    have eq: "backward_loop h rs (Suc k) v =
        (if length rs \<le> k then (Some IndexError, h1)
         else case sensor_probabilities h1 (rs ! k) of
                None \<Rightarrow> (Some KeyError, h1)
              | Some e \<Rightarrow>
                  (case ebind (mul e v) (\<lambda>w. mul (transitions h1) w) of
                     Inl er \<Rightarrow> (Some er, h1)
                   | Inr x \<Rightarrow> backward_loop h1 rs k x))"
      unfolding h1_def using Inr by (simp add: Let_def)
    have stop: "snd (backward_loop h rs (Suc k) v) = h1 \<Longrightarrow> ?thesis"
      using h1 by simp
    have go: "snd (backward_loop h rs (Suc k) v) = snd (backward_loop h1 rs k w) \<Longrightarrow> ?thesis" for w
      using Suc.IH [of h1 w] h1 by simp
    show ?thesis
    proof (cases "length rs \<le> k")
      case True
      then show ?thesis by (intro stop) (subst eq, simp)
    next
      case False
      show ?thesis
      proof (cases "sensor_probabilities h1 (rs ! k)")
        case None
        with False show ?thesis by (intro stop) (subst eq, simp)
      next
        case (Some e)
        show ?thesis
        proof (cases "ebind (mul e v) (\<lambda>w. mul (transitions h1) w)")
          case (Inl er)
          with False Some show ?thesis by (intro stop) (subst eq, simp)
        next
          case (Inr x)
          with False Some show ?thesis by (intro go [of x]) (subst eq, simp)
        qed
      qed
    qed
  qed
qed

lemma grid2_after_eq:
  "grid2_after = grid2_engine\<lparr>steps :=
        [[[Fin (1 / 3)], [Fin (1 / 3)], [Fin (1 / 3)]],
         [[Fin (22 / 47)], [Fin (3 / 47)], [Fin (22 / 47)]],
         [[Fin (207 / 1514)], [Fin (550 / 757)], [Fin (207 / 1514)]]]\<rparr>"
  by (simp add: grid2_after_def forward_grid2)

lemma backward_grid2_GR:
  "backward grid2_after ''GR'' =
     (None, grid2_engine\<lparr>steps :=
        [[[Fin (1 / 3)], [Fin (1 / 3)], [Fin (1 / 3)]],
         [[Fin (253 / 531)], [Fin (25 / 531)], [Fin (253 / 531)]],
         [[Fin (207 / 1514)], [Fin (550 / 757)], [Fin (207 / 1514)]]]\<rparr>)"
  unfolding grid2_after_eq
  by (simp add: backward_def Let_def lower_def lower_char_evals grid2_def mul_def np_dot_def multiply_def
      broadcast_dim_def ones_def numeral_2_eq_2 grid2_engine_def run_simps)

lemma lower_char_idem: "lower_char (lower_char c) = lower_char c"
  by (auto simp: lower_char_def Let_def)

lemma lower_idem: "lower (lower r) = lower r"
  by (simp add: lower_def lower_char_idem)

lemma forward_loop_frame:
  "maze (snd (forward_loop h rs d)) = maze h \<and>
   (steps h \<noteq> [] \<longrightarrow> steps (snd (forward_loop h rs d)) \<noteq> [])"
proof (induction rs arbitrary: h d)
  case Nil
  then show ?case by simp
next
  case (Cons r rs)
  show ?case
  proof (cases "forward_update h r d")
    case (Inl e)
    then show ?thesis by simp
  next
    case (Inr v)
    with Cons.IH [of "h\<lparr>steps := steps h @ [normalize_m v]\<rparr>" "normalize_m v"]
    show ?thesis by simp
  qed
qed

lemma forward_lower: "forward h (lower r) = forward h r"
  by (simp add: forward_def lower_idem)

lemma forward_maze: "maze (snd (forward h r)) = maze h"
  using forward_loop_frame by (simp add: forward_def Let_def)

lemma forward_nonempty: "fst (forward h r) = None \<Longrightarrow> steps (snd (forward h r)) \<noteq> []"
  using forward_loop_frame by (auto simp: forward_def Let_def split: if_splits)

lemma backward_nonempty:
  "steps h \<noteq> [] \<Longrightarrow>
   backward h r =
     backward_loop h (lower r) (length (steps h) - 1) (ones (count_positions (maze h)) 1)"
  by (simp add: backward_def Let_def)

lemma backward_empty:
  assumes "steps h = []"
  shows "backward h r =
     (if fst (forward h r) = None then backward (snd (forward h r)) r else forward h r)"
proof (cases "fst (forward h r)")
  case None
  then have "backward h r =
      backward_loop (snd (forward h r)) (lower r) (length (steps (snd (forward h r))) - 1)
        (ones (count_positions (maze h)) 1)"
    using assms by (simp add: backward_def Let_def forward_lower)
  also have "\<dots> = backward (snd (forward h r)) r"
    using forward_nonempty [OF None] by (simp add: backward_nonempty forward_maze)
  finally show ?thesis
    using None by simp
next
  case (Some e)
  then show ?thesis
    using assms by (simp add: backward_def Let_def forward_lower prod_eq_iff)
qed

lemma backward_loop_fields:
  "snd (backward_loop h rs k v) = h\<lparr>steps := steps (snd (backward_loop h rs k v))\<rparr>"
proof (induction k arbitrary: h v)
  case 0
  then show ?case by simp
next
  case (Suc k)
  show ?case
  proof (cases "multiply (steps h ! Suc k) v")
    case (Inl e)
    then show ?thesis by simp
  next
    case (Inr s)
    define h1 where "h1 = h\<lparr>steps := list_update (steps h) (Suc k) (normalize_m s)\<rparr>"
    have eq: "backward_loop h rs (Suc k) v =
        (if length rs \<le> k then (Some IndexError, h1)
         else case sensor_probabilities h1 (rs ! k) of
                None \<Rightarrow> (Some KeyError, h1)
              | Some e \<Rightarrow>
                  (case ebind (mul e v) (\<lambda>w. mul (transitions h1) w) of
                     Inl er \<Rightarrow> (Some er, h1)
                   | Inr x \<Rightarrow> backward_loop h1 rs k x))"
      unfolding h1_def using Inr by (simp add: Let_def)
    have stop: "h1 = h\<lparr>steps := steps h1\<rparr>"
      by (simp add: h1_def)
    have go: "snd (backward_loop h1 rs k w) = h\<lparr>steps := steps (snd (backward_loop h1 rs k w))\<rparr>"
      for w
      by (subst Suc.IH [of h1 w]) (simp add: h1_def)
    show ?thesis
      unfolding eq using stop go
      by (auto split: option.splits sum.splits)
  qed
qed

lemma backward_loop_sweep:
  "k < length (steps h) \<Longrightarrow> fst (backward_loop h rs k v) = None \<Longrightarrow>
   \<exists>V. V k = v \<and>
     (\<forall>j. 1 \<le> j \<and> j \<le> k \<longrightarrow>
        j - 1 < length rs \<and>
        (\<exists>u. multiply (steps h ! j) (V j) = Inr u \<and>
           steps (snd (backward_loop h rs k v)) ! j = normalize_m u) \<and>
        (\<exists>e w. sensor_probabilities h (rs ! (j - 1)) = Some e \<and> mul e (V j) = Inr w \<and>
           mul (transitions h) w = Inr (V (j - 1))))"
proof (induction k arbitrary: h v)
  case 0
  then show ?case by (intro exI [of _ "\<lambda>_. v"]) simp
next
  case (Suc k)
  from Suc.prems(2) obtain s where s: "multiply (steps h ! Suc k) v = Inr s"
    by (cases "multiply (steps h ! Suc k) v") simp_all
  define h1 where "h1 = h\<lparr>steps := list_update (steps h) (Suc k) (normalize_m s)\<rparr>"
  have eq: "backward_loop h rs (Suc k) v =
      (if length rs \<le> k then (Some IndexError, h1)
       else case sensor_probabilities h1 (rs ! k) of
              None \<Rightarrow> (Some KeyError, h1)
            | Some e \<Rightarrow>
                (case ebind (mul e v) (\<lambda>w. mul (transitions h1) w) of
                   Inl er \<Rightarrow> (Some er, h1)
                 | Inr x \<Rightarrow> backward_loop h1 rs k x))"
    unfolding h1_def using s by (simp add: Let_def)
  from Suc.prems(2) have kl: "k < length rs"
    unfolding eq by (auto split: if_splits)
  from Suc.prems(2) kl obtain e where e: "sensor_probabilities h1 (rs ! k) = Some e"
    unfolding eq by (cases "sensor_probabilities h1 (rs ! k)") simp_all
  from Suc.prems(2) kl e obtain x where x: "ebind (mul e v) (\<lambda>w. mul (transitions h1) w) = Inr x"
    unfolding eq by (cases "ebind (mul e v) (\<lambda>w. mul (transitions h1) w)") simp_all
  then obtain w where w: "mul e v = Inr w" "mul (transitions h) w = Inr x"
    by (cases "mul e v") (simp_all add: h1_def)
  have run: "backward_loop h rs (Suc k) v = backward_loop h1 rs k x"
    unfolding eq using kl e x by simp
  have k1: "k < length (steps h1)"
    using Suc.prems(1) by (simp add: h1_def)
  from Suc.IH [OF k1, of x] Suc.prems(2) run
  obtain V where V: "V k = x"
    "\<forall>j. 1 \<le> j \<and> j \<le> k \<longrightarrow>
        j - 1 < length rs \<and>
        (\<exists>u. multiply (steps h1 ! j) (V j) = Inr u \<and>
           steps (snd (backward_loop h1 rs k x)) ! j = normalize_m u) \<and>
        (\<exists>e w. sensor_probabilities h1 (rs ! (j - 1)) = Some e \<and> mul e (V j) = Inr w \<and>
           mul (transitions h1) w = Inr (V (j - 1)))"
    by auto
  define W where "W = V(Suc k := v)"
  define res where "res = steps (snd (backward_loop h rs (Suc k) v))"
  have res: "res = steps (snd (backward_loop h1 rs k x))"
    by (simp only: res_def run)
  have last: "steps (snd (backward_loop h1 rs k x)) ! Suc k = normalize_m s"
    using backward_loop_frame [of h1 rs k x] Suc.prems(1) by (simp add: h1_def)
  have top: "Suc k - 1 < length rs \<and>
        (\<exists>u. multiply (steps h ! Suc k) (W (Suc k)) = Inr u \<and>
           res ! Suc k = normalize_m u) \<and>
        (\<exists>e w. sensor_probabilities h (rs ! (Suc k - 1)) = Some e \<and> mul e (W (Suc k)) = Inr w \<and>
           mul (transitions h) w = Inr (W (Suc k - 1)))"
    using kl s last e w V(1) by (simp add: res W_def h1_def)
  have below: "j - 1 < length rs \<and>
        (\<exists>u. multiply (steps h ! j) (W j) = Inr u \<and>
           res ! j = normalize_m u) \<and>
        (\<exists>e w. sensor_probabilities h (rs ! (j - 1)) = Some e \<and> mul e (W j) = Inr w \<and>
           mul (transitions h) w = Inr (W (j - 1)))" if "1 \<le> j" "j \<le> k" for j
    using V(2) [rule_format, of j] that by (auto simp: res W_def h1_def)
  have "\<forall>j. 1 \<le> j \<and> j \<le> Suc k \<longrightarrow>
        j - 1 < length rs \<and>
        (\<exists>u. multiply (steps h ! j) (W j) = Inr u \<and>
           res ! j = normalize_m u) \<and>
        (\<exists>e w. sensor_probabilities h (rs ! (j - 1)) = Some e \<and> mul e (W j) = Inr w \<and>
           mul (transitions h) w = Inr (W (j - 1)))"
  proof (intro allI impI)
    fix j assume j: "1 \<le> j \<and> j \<le> Suc k"
    show "j - 1 < length rs \<and>
        (\<exists>u. multiply (steps h ! j) (W j) = Inr u \<and>
           res ! j = normalize_m u) \<and>
        (\<exists>e w. sensor_probabilities h (rs ! (j - 1)) = Some e \<and> mul e (W j) = Inr w \<and>
           mul (transitions h) w = Inr (W (j - 1)))"
    proof (cases "j = Suc k")
      case True
      then show ?thesis using top by simp
    next
      case False
      with j below [of j] show ?thesis by simp
    qed
  qed
  moreover have "W (Suc k) = v"
    by (simp add: W_def)
  ultimately have "\<exists>V. V (Suc k) = v \<and>
     (\<forall>j. 1 \<le> j \<and> j \<le> Suc k \<longrightarrow>
        j - 1 < length rs \<and>
        (\<exists>u. multiply (steps h ! j) (V j) = Inr u \<and> res ! j = normalize_m u) \<and>
        (\<exists>e w. sensor_probabilities h (rs ! (j - 1)) = Some e \<and> mul e (V j) = Inr w \<and>
           mul (transitions h) w = Inr (V (j - 1))))"
    by (intro exI [of _ W] conjI)
  then show ?case
    unfolding res_def .
qed

lemma backward_loop_runs:
  "k < length (steps h) \<Longrightarrow> V k = v \<Longrightarrow>
   (\<forall>j. 1 \<le> j \<and> j \<le> k \<longrightarrow>
      j - 1 < length rs \<and>
      (\<exists>u. multiply (steps h ! j) (V j) = Inr u) \<and>
      (\<exists>e w. sensor_probabilities h (rs ! (j - 1)) = Some e \<and> mul e (V j) = Inr w \<and>
         mul (transitions h) w = Inr (V (j - 1)))) \<Longrightarrow>
   fst (backward_loop h rs k v) = None"
proof (induction k arbitrary: h v)
  case 0
  then show ?case by simp
next
  case (Suc k)
  from Suc.prems(3) [rule_format, of "Suc k"] Suc.prems(2)
  obtain u e w where top: "k < length rs" "multiply (steps h ! Suc k) v = Inr u"
    "sensor_probabilities h (rs ! k) = Some e" "mul e v = Inr w"
    "mul (transitions h) w = Inr (V k)"
    by auto
  define h1 where "h1 = h\<lparr>steps := list_update (steps h) (Suc k) (normalize_m u)\<rparr>"
  have run: "backward_loop h rs (Suc k) v = backward_loop h1 rs k (V k)"
    unfolding h1_def using top by (simp add: Let_def)
  have k1: "k < length (steps h1)"
    using Suc.prems(1) by (simp add: h1_def)
  have below: "\<forall>j. 1 \<le> j \<and> j \<le> k \<longrightarrow>
      j - 1 < length rs \<and>
      (\<exists>u. multiply (steps h1 ! j) (V j) = Inr u) \<and>
      (\<exists>e w. sensor_probabilities h1 (rs ! (j - 1)) = Some e \<and> mul e (V j) = Inr w \<and>
         mul (transitions h1) w = Inr (V (j - 1)))"
  proof (intro allI impI)
    fix j assume j: "1 \<le> j \<and> j \<le> k"
    then have "1 \<le> j \<and> j \<le> Suc k" "j \<noteq> Suc k"
      by simp_all
    with Suc.prems(3) [rule_format, of j]
    show "j - 1 < length rs \<and>
      (\<exists>u. multiply (steps h1 ! j) (V j) = Inr u) \<and>
      (\<exists>e w. sensor_probabilities h1 (rs ! (j - 1)) = Some e \<and> mul e (V j) = Inr w \<and>
         mul (transitions h1) w = Inr (V (j - 1)))"
      by (simp add: h1_def)
  qed
  from Suc.IH [OF k1 refl below] show ?case
    by (simp only: run)
qed

lemma viterbi_first_steps: "viterbi_first (h\<lparr>steps := ss\<rparr>) = viterbi_first h"
  by (simp add: fun_eq_iff viterbi_first_def)

lemma viterbi_prev_steps: "viterbi_prev (h\<lparr>steps := ss\<rparr>) = viterbi_prev h"
  by (simp add: fun_eq_iff viterbi_prev_def)

lemma viterbi_emit_steps: "viterbi_emit (h\<lparr>steps := ss\<rparr>) = viterbi_emit h"
  by (simp add: fun_eq_iff viterbi_emit_def)

lemma viterbi_curr_steps: "viterbi_curr (h\<lparr>steps := ss\<rparr>) = viterbi_curr h"
  by (simp add: fun_eq_iff viterbi_curr_def viterbi_prev_steps viterbi_emit_steps)

lemma viterbi_step_steps: "viterbi_step (h\<lparr>steps := ss\<rparr>) = viterbi_step h"
  by (simp add: fun_eq_iff viterbi_step_def viterbi_curr_steps)

lemma viterbi_tables_steps: "viterbi_tables (h\<lparr>steps := ss\<rparr>) = viterbi_tables h"
  by (simp add: fun_eq_iff viterbi_tables_def viterbi_init_def viterbi_first_steps
      viterbi_step_steps)

lemma viterbi_path_steps: "viterbi_path (h\<lparr>steps := ss\<rparr>) = viterbi_path h"
  by (simp add: fun_eq_iff viterbi_path_def)

lemma viterbi_steps: "fst (viterbi (h\<lparr>steps := ss\<rparr>) r) = fst (viterbi h r)"
  by (simp add: viterbi_def Let_def viterbi_tables_steps viterbi_path_steps)

lemma backward_grid2_GRG:
  "backward grid2_after ''GRG'' =
     (None, grid2_engine\<lparr>steps :=
        [[[Fin (1 / 3)], [Fin (1 / 3)], [Fin (1 / 3)]],
         [[Fin (253 / 531)], [Fin (25 / 531)], [Fin (253 / 531)]],
         [[Fin (207 / 1514)], [Fin (550 / 757)], [Fin (207 / 1514)]]]\<rparr>)"
  unfolding grid2_after_eq
  by (simp add: backward_def Let_def lower_def lower_char_evals grid2_def mul_def np_dot_def multiply_def
      broadcast_dim_def ones_def numeral_2_eq_2 grid2_engine_def run_simps)

lemma forward_grid2_GRG: "length (steps (snd (forward grid2_engine ''GRG''))) = 4"
  by (simp add: forward_def Let_def lower_def lower_char_evals grid2_def forward_update_def mul_def np_dot_def
      transpose_m_def grid2_engine_def run_simps)

lemma forward_engine_GR:
  "fst (forward grid2_engine ''GR'') = None"
  by (simp add: forward_def Let_def lower_def lower_char_evals grid2_def forward_update_def mul_def np_dot_def
      transpose_m_def grid2_engine_def run_simps)

text \<open>
  C8, as stated, fails: the engine that \<^verbatim>\<open>forward("RG")\<close> has left holds three steps;
  \<open>viterbi\<close> keeps them as they are, and \<^verbatim>\<open>backward("GRG")\<close> returns normally with three
  stored steps, where a sequence made afresh for three readings has four.
\<close>

theorem steps_left_in_place:
  "steps grid2_after \<noteq> [] \<and>
   length (steps grid2_after) = 3 \<and>
   steps (snd (viterbi grid2_after ''GRG'')) = steps grid2_after \<and>
   fst (backward grid2_after ''GRG'') = None \<and>
   length (steps (snd (backward grid2_after ''GRG''))) = 3 \<and>
   length (steps (snd (forward grid2_engine ''GRG''))) = 4"
  by (simp add: backward_grid2_GRG forward_grid2_GRG viterbi_def Let_def) (simp add: grid2_after_eq)

text \<open>
  C8, amended. \<open>forward\<close>, when every reading is a color of the grid, builds the steps
  afresh: its result does not depend on the steps stored before. \<open>viterbi\<close> writes no
  field of the engine, and what it returns does not depend on the stored steps.
  \<open>backward\<close> on an engine with no stored steps is \<open>forward\<close>, followed when \<open>forward\<close>
  has returned normally by \<open>backward\<close> on the engine that \<open>forward\<close> has left.
  \<open>backward\<close> on an engine that holds steps makes no new sequence: it writes no other
  field, and the stored sequence keeps its length and its step 0. It returns normally
  exactly when the sweep from the last step down to step 1 goes through, and then it
  has overwritten every step \<open>k \<ge> 1\<close> in place: with \<open>V\<close> the column of ones at the last
  step and \<open>V (k - 1) = transitions * (emission of reading k - 1 * V k)\<close>, step \<open>k\<close> of the
  result is the elementwise product of the stored step \<open>k\<close> and \<open>V k\<close>, normalised.
\<close>

theorem stored_steps_by_method:
  "((\<forall>r \<in> set readings. lower_char r \<in> set (colors (maze h))) \<longrightarrow>
      forward (h\<lparr>steps := ss\<rparr>) readings = forward (h\<lparr>steps := []\<rparr>) readings) \<and>
   snd (viterbi h readings) = h \<and>
   fst (viterbi (h\<lparr>steps := ss\<rparr>) readings) = fst (viterbi h readings) \<and>
   (steps h = [] \<longrightarrow>
      backward h readings =
        (if fst (forward h readings) = None then backward (snd (forward h readings)) readings
         else forward h readings)) \<and>
   (steps h \<noteq> [] \<longrightarrow>
      snd (backward h readings) = h\<lparr>steps := steps (snd (backward h readings))\<rparr> \<and>
      length (steps (snd (backward h readings))) = length (steps h) \<and>
      steps (snd (backward h readings)) ! 0 = steps h ! 0 \<and>
      (fst (backward h readings) = None \<longleftrightarrow>
         (\<exists>V. V (length (steps h) - 1) = ones (count_positions (maze h)) 1 \<and>
            (\<forall>k. 1 \<le> k \<and> k \<le> length (steps h) - 1 \<longrightarrow>
               k - 1 < length (lower readings) \<and>
               (\<exists>u. multiply (steps h ! k) (V k) = Inr u \<and>
                    steps (snd (backward h readings)) ! k = normalize_m u) \<and>
               (\<exists>e w. sensor_probabilities h (lower readings ! (k - 1)) = Some e \<and>
                    mul e (V k) = Inr w \<and> mul (transitions h) w = Inr (V (k - 1)))))))"
proof (intro conjI impI)
  assume "\<forall>r \<in> set readings. lower_char r \<in> set (colors (maze h))"
  then show "forward (h\<lparr>steps := ss\<rparr>) readings = forward (h\<lparr>steps := []\<rparr>) readings"
    by (auto simp: forward_def Let_def lower_def)
next
  show "snd (viterbi h readings) = h"
    by (simp add: viterbi_def Let_def)
next
  show "fst (viterbi (h\<lparr>steps := ss\<rparr>) readings) = fst (viterbi h readings)"
    by (rule viterbi_steps)
next
  assume "steps h = []"
  then show "backward h readings =
        (if fst (forward h readings) = None then backward (snd (forward h readings)) readings
         else forward h readings)"
    by (rule backward_empty)
next
  assume s: "steps h \<noteq> []"
  define n where "n = length (steps h) - 1"
  define one where "one = ones (count_positions (maze h)) 1"
  have b: "backward h readings = backward_loop h (lower readings) n one"
    unfolding n_def one_def using s by (rule backward_nonempty)
  have n: "n < length (steps h)"
    using s by (simp add: n_def)
  show "snd (backward h readings) = h\<lparr>steps := steps (snd (backward h readings))\<rparr>"
    unfolding b by (rule backward_loop_fields)
  show "length (steps (snd (backward h readings))) = length (steps h)"
    unfolding b using backward_loop_frame by blast
  show "steps (snd (backward h readings)) ! 0 = steps h ! 0"
    unfolding b using backward_loop_frame by blast
  show "fst (backward h readings) = None \<longleftrightarrow>
         (\<exists>V. V (length (steps h) - 1) = ones (count_positions (maze h)) 1 \<and>
            (\<forall>k. 1 \<le> k \<and> k \<le> length (steps h) - 1 \<longrightarrow>
               k - 1 < length (lower readings) \<and>
               (\<exists>u. multiply (steps h ! k) (V k) = Inr u \<and>
                    steps (snd (backward h readings)) ! k = normalize_m u) \<and>
               (\<exists>e w. sensor_probabilities h (lower readings ! (k - 1)) = Some e \<and>
                    mul e (V k) = Inr w \<and> mul (transitions h) w = Inr (V (k - 1)))))"
    unfolding b n_def [symmetric] one_def [symmetric]
  proof
    assume "fst (backward_loop h (lower readings) n one) = None"
    from backward_loop_sweep [OF n this]
    show "\<exists>V. V n = one \<and>
            (\<forall>k. 1 \<le> k \<and> k \<le> n \<longrightarrow>
               k - 1 < length (lower readings) \<and>
               (\<exists>u. multiply (steps h ! k) (V k) = Inr u \<and>
                    steps (snd (backward_loop h (lower readings) n one)) ! k = normalize_m u) \<and>
               (\<exists>e w. sensor_probabilities h (lower readings ! (k - 1)) = Some e \<and>
                    mul e (V k) = Inr w \<and> mul (transitions h) w = Inr (V (k - 1))))" .
  next
    assume "\<exists>V. V n = one \<and>
            (\<forall>k. 1 \<le> k \<and> k \<le> n \<longrightarrow>
               k - 1 < length (lower readings) \<and>
               (\<exists>u. multiply (steps h ! k) (V k) = Inr u \<and>
                    steps (snd (backward_loop h (lower readings) n one)) ! k = normalize_m u) \<and>
               (\<exists>e w. sensor_probabilities h (lower readings ! (k - 1)) = Some e \<and>
                    mul e (V k) = Inr w \<and> mul (transitions h) w = Inr (V (k - 1))))"
    then obtain V where V: "V n = one"
      "\<forall>k. 1 \<le> k \<and> k \<le> n \<longrightarrow>
               k - 1 < length (lower readings) \<and>
               (\<exists>u. multiply (steps h ! k) (V k) = Inr u) \<and>
               (\<exists>e w. sensor_probabilities h (lower readings ! (k - 1)) = Some e \<and>
                    mul e (V k) = Inr w \<and> mul (transitions h) w = Inr (V (k - 1)))"
      by blast
    from backward_loop_runs [OF n V]
    show "fst (backward_loop h (lower readings) n one) = None" .
  qed
qed

theorem stored_steps_by_method_witness:
  "lower_char (CHR ''G'') \<in> set (colors (maze grid2_after)) \<and>
   lower_char (CHR ''R'') \<in> set (colors (maze grid2_after)) \<and>
   forward (grid2_after\<lparr>steps := [[[Fin 1]]]\<rparr>) ''GR'' = forward (grid2_after\<lparr>steps := []\<rparr>) ''GR'' \<and>
   snd (viterbi grid2_after ''GR'') = grid2_after \<and>
   fst (viterbi (grid2_after\<lparr>steps := [[[Fin 1]]]\<rparr>) ''GR'') = fst (viterbi grid2_after ''GR'') \<and>
   steps grid2_engine = [] \<and>
   fst (forward grid2_engine ''GR'') = None \<and>
   backward grid2_engine ''GR'' = backward (snd (forward grid2_engine ''GR'')) ''GR'' \<and>
   steps grid2_after \<noteq> [] \<and>
   snd (backward grid2_after ''GR'') =
     grid2_after\<lparr>steps := steps (snd (backward grid2_after ''GR''))\<rparr> \<and>
   length (steps (snd (backward grid2_after ''GR''))) = length (steps grid2_after) \<and>
   steps (snd (backward grid2_after ''GR'')) ! 0 = steps grid2_after ! 0 \<and>
   fst (backward grid2_after ''GR'') = None \<and>
   (\<exists>V. V (length (steps grid2_after) - 1) = ones (count_positions (maze grid2_after)) 1 \<and>
      (\<forall>k. 1 \<le> k \<and> k \<le> length (steps grid2_after) - 1 \<longrightarrow>
         k - 1 < length (lower ''GR'') \<and>
         (\<exists>u. multiply (steps grid2_after ! k) (V k) = Inr u \<and>
              steps (snd (backward grid2_after ''GR'')) ! k = normalize_m u) \<and>
         (\<exists>e w. sensor_probabilities grid2_after (lower ''GR'' ! (k - 1)) = Some e \<and>
              mul e (V k) = Inr w \<and> mul (transitions grid2_after) w = Inr (V (k - 1)))))"
proof -
  note after = stored_steps_by_method [of "''GR''" grid2_after "[[[Fin 1]]]"]
  note fresh = stored_steps_by_method [of "''GR''" grid2_engine "[]"]
  have g: "lower_char (CHR ''G'') \<in> set (colors (maze grid2_after))"
    and r: "lower_char (CHR ''R'') \<in> set (colors (maze grid2_after))"
    by (simp_all add: lower_char_evals grid2_after_eq grid2_engine_def consts_grid2)
  then have v: "\<forall>r \<in> set ''GR''. lower_char r \<in> set (colors (maze grid2_after))"
    by simp
  have s: "steps grid2_after \<noteq> []"
    by (simp add: grid2_after_eq)
  have n: "fst (backward grid2_after ''GR'') = None"
    by (simp add: backward_grid2_GR)
  have e: "steps grid2_engine = []"
    by (simp add: grid2_engine_def)
  have f: "fst (forward grid2_engine ''GR'') = None"
    by (rule forward_engine_GR)
  note a1 = after [THEN conjunct1, THEN mp, OF v]
  note a2 = after [THEN conjunct2, THEN conjunct1]
  note a3 = after [THEN conjunct2, THEN conjunct2, THEN conjunct1]
  note a5 = after [THEN conjunct2, THEN conjunct2, THEN conjunct2, THEN conjunct2, THEN mp, OF s]
  note f4 = fresh [THEN conjunct2, THEN conjunct2, THEN conjunct2, THEN conjunct1, THEN mp, OF e]
  have b: "backward grid2_engine ''GR'' = backward (snd (forward grid2_engine ''GR'')) ''GR''"
    using f4 f by simp
  note sweep = a5 [THEN conjunct2, THEN conjunct2, THEN conjunct2, THEN iffD1, OF n]
  show ?thesis
    by (intro conjI g r a1 a2 a3 e f b s n sweep a5 [THEN conjunct1]
        a5 [THEN conjunct2, THEN conjunct1] a5 [THEN conjunct2, THEN conjunct2, THEN conjunct1])
qed

subsection \<open>The recurrence of Viterbi's table\<close>

text \<open>
  C2. On the grid \<open>grid2\<close> and the readings \<^verbatim>\<open>"RGR"\<close> the tables that \<open>viterbi\<close> ends with
  break the recurrence: \<open>delta[2, 0]\<close> is none of the three products
  \<open>delta[1, prev] * transitions[prev, 0]\<close> times the emission of \<^verbatim>\<open>'r'\<close> at state 0, so it
  is not their maximum times that emission.
\<close>

theorem viterbi_recurrence_broken:
  "\<exists>delta predecessors e.
     viterbi_tables grid2_engine (lower ''RGR'') = Inr (delta, predecessors) \<and>
     sensor_probabilities grid2_engine (lower ''RGR'' ! 2) = Some e \<and>
     delta ! 2 ! 0 \<noteq> fmul (fmul (delta ! 1 ! 0) (transitions grid2_engine ! 0 ! 0)) (e ! 0 ! 0) \<and>
     delta ! 2 ! 0 \<noteq> fmul (fmul (delta ! 1 ! 1) (transitions grid2_engine ! 1 ! 0)) (e ! 0 ! 0) \<and>
     delta ! 2 ! 0 \<noteq> fmul (fmul (delta ! 1 ! 2) (transitions grid2_engine ! 2 ! 0)) (e ! 0 ! 0)"
proof -
  have l: "lower ''RGR'' = ''rgr''"
    by (simp add: lower_def lower_char_evals)
  show ?thesis
    unfolding l viterbi_tables_grid2
    by (simp add: grid2_engine_def)
qed

subsection \<open>Backward with an unknown reading\<close>

text \<open>
  C10. On the engine that \<^verbatim>\<open>forward("RG")\<close> has left, \<^verbatim>\<open>backward("XG")\<close> does not check the
  label \<^verbatim>\<open>'x'\<close>, which \<open>forward\<close> refuses with \<open>ValueError\<close>: it raises \<open>KeyError\<close> only when the
  sweep reaches the first reading, after it has overwritten step 2 and step 1, and step 1
  is left changed.
\<close>

theorem backward_unchecked_label:
  "steps grid2_after \<noteq> [] \<and>
   lower_char (CHR ''X'') \<notin> set (colors (maze grid2_after)) \<and>
   fst (forward grid2_after ''XG'') = Some ValueError \<and>
   fst (backward grid2_after ''XG'') = Some KeyError \<and>
   length (steps (snd (backward grid2_after ''XG''))) = length (steps grid2_after) \<and>
   steps (snd (backward grid2_after ''XG'')) ! 0 = steps grid2_after ! 0 \<and>
   steps (snd (backward grid2_after ''XG'')) ! 1 \<noteq> steps grid2_after ! 1"
proof -
  have x: "lower_char (CHR ''X'') \<notin> set (colors (maze grid2_after))"
    by (simp add: lower_char_evals grid2_after_eq grid2_engine_def consts_grid2)
  then have f: "forward grid2_after ''XG'' = (Some ValueError, grid2_after)"
    by (simp add: forward_def lower_def)
  have b: "backward grid2_after ''XG'' =
     (Some KeyError, grid2_engine\<lparr>steps :=
        [[[Fin (1 / 3)], [Fin (1 / 3)], [Fin (1 / 3)]],
         [[Fin (341 / 757)], [Fin (75 / 757)], [Fin (341 / 757)]],
         [[Fin (207 / 1514)], [Fin (550 / 757)], [Fin (207 / 1514)]]]\<rparr>)"
    unfolding grid2_after_eq by (rule backward_grid2)
  show ?thesis
    using x by (simp add: f b) (simp add: grid2_after_eq)
qed

end
